theory Spec2Isabelle
  imports Main "HOL-Library.Monad_Syntax"
begin

section \<open>Memory model\<close>

text \<open>
  The map of \<^verbatim>\<open>map.hpp\<close> is a red-black tree whose nodes are also threaded on a
  doubly linked list. Nodes are heap objects reached through raw pointers, so the model
  keeps an explicit store from addresses to node records. A pointer is an optional
  address, \<open>None\<close> being \<^verbatim>\<open>nullptr\<close>. A function returns \<open>None\<close> when the C++ code
  has no defined result: a null or dangling pointer is dereferenced, or a loop never ends.
  C++ exceptions are separate values (type \<open>error\<close> below).
\<close>

type_synonym addr = nat
type_synonym ptr = "addr option"

datatype color_e = RED | BLACK

abbreviation (input) LEFT :: bool where "LEFT \<equiv> False"
abbreviation (input) RIGHT :: bool where "RIGHT \<equiv> True"

text \<open>\<^verbatim>\<open>struct rbt_node\<close>. The array \<^verbatim>\<open>child[2]\<close> is indexed by \<^verbatim>\<open>which_e = bool\<close>.
  \<open>val\<close> is the pointer \<^verbatim>\<open>value\<close> to the owned key-value pair (\<open>None\<close> for the sentinels).\<close>

record ('k, 'v) rbt_node =
  prev :: ptr
  "next" :: ptr
  father :: ptr
  child :: "bool \<Rightarrow> ptr"
  which :: bool
  color :: color_e
  val :: "('k \<times> 'v) option"

text \<open>The node heap with its allocation frontier: \<^verbatim>\<open>new\<close> hands out address \<open>brk\<close>.\<close>

record ('k, 'v) heap =
  mem :: "addr \<rightharpoonup> ('k, 'v) rbt_node"
  brk :: addr

text \<open>The data members of one \<^verbatim>\<open>map\<close> object (\<open>msize\<close> is \<^verbatim>\<open>__size\<close>) together with the
  heap its member functions work on. The comparator member is default-constructed in every
  constructor, so it is the same function for all maps and is passed as a parameter.\<close>

record ('k, 'v) map_state = "('k, 'v) heap" +
  head :: addr
  tail :: addr
  root :: ptr
  msize :: nat

definition rd :: "ptr \<Rightarrow> ('k, 'v, 'z) heap_scheme \<Rightarrow> ('k, 'v) rbt_node option" where
  "rd p s = (case p of None \<Rightarrow> None | Some a \<Rightarrow> mem s a)"

definition upd :: "ptr \<Rightarrow> (('k, 'v) rbt_node \<Rightarrow> ('k, 'v) rbt_node) \<Rightarrow>
    ('k, 'v, 'z) heap_scheme \<Rightarrow> ('k, 'v, 'z) heap_scheme option" where
  "upd p f s = (case p of None \<Rightarrow> None | Some a \<Rightarrow>
     (case mem s a of None \<Rightarrow> None | Some n \<Rightarrow> Some (s\<lparr>mem := (mem s)(a \<mapsto> f n)\<rparr>)))"

section \<open>Node operations\<close>

text \<open>\<^verbatim>\<open>rbt_node::update_nearby\<close>: every field of \<^verbatim>\<open>this\<close> is read again after each store.\<close>

definition update_nearby :: "addr \<Rightarrow> ('k, 'v, 'z) heap_scheme \<Rightarrow> ('k, 'v, 'z) heap_scheme option" where
  "update_nearby this s = do {
     n \<leftarrow> mem s this;
     s1 \<leftarrow> upd (prev n) (\<lambda>x. x\<lparr>next := Some this\<rparr>) s;
     n1 \<leftarrow> mem s1 this;
     s2 \<leftarrow> upd (next n1) (\<lambda>x. x\<lparr>prev := Some this\<rparr>) s1;
     n2 \<leftarrow> mem s2 this;
     s3 \<leftarrow> (case father n2 of None \<Rightarrow> Some s2
            | Some f \<Rightarrow> upd (Some f) (\<lambda>x. x\<lparr>child := (child x)(which n2 := Some this)\<rparr>) s2);
     n3 \<leftarrow> mem s3 this;
     s4 \<leftarrow> (case child n3 LEFT of None \<Rightarrow> Some s3
            | Some c \<Rightarrow> upd (Some c) (\<lambda>x. x\<lparr>father := Some this, which := LEFT\<rparr>) s3);
     n4 \<leftarrow> mem s4 this;
     (case child n4 RIGHT of None \<Rightarrow> Some s4
      | Some c \<Rightarrow> upd (Some c) (\<lambda>x. x\<lparr>father := Some this, which := RIGHT\<rparr>) s4)
   }"

text \<open>The constructor \<^verbatim>\<open>rbt_node(value, prev, next, father, left_child, right_child, which)\<close>
  behind \<^verbatim>\<open>new\<close>: the node is RED and announces itself to its neighbours.\<close>

definition new_node :: "('k \<times> 'v) \<Rightarrow> ptr \<Rightarrow> ptr \<Rightarrow> ptr \<Rightarrow> ptr \<Rightarrow> ptr \<Rightarrow> bool \<Rightarrow>
    ('k, 'v, 'z) heap_scheme \<Rightarrow> (addr \<times> ('k, 'v, 'z) heap_scheme) option" where
  "new_node value p n f left_child right_child w s = do {
     let this = brk s;
     let s1 = s\<lparr>mem := (mem s)(this \<mapsto> \<lparr>prev = p, next = n, father = f,
                child = (\<lambda>d. if d then right_child else left_child),
                which = w, color = RED, val = Some value\<rparr>), brk := Suc this\<rparr>;
     s2 \<leftarrow> update_nearby this s1;
     Some (this, s2)
   }"

definition link_node :: "ptr \<Rightarrow> ptr \<Rightarrow> ('k, 'v, 'z) heap_scheme \<Rightarrow> ('k, 'v, 'z) heap_scheme option" where
  "link_node a b s = do {
     s1 \<leftarrow> upd a (\<lambda>x. x\<lparr>next := b\<rparr>) s;
     upd b (\<lambda>x. x\<lparr>prev := a\<rparr>) s1
   }"

text \<open>\<^verbatim>\<open>__swap(a->fld, b->fld)\<close> for one field, given its selector and its update.\<close>

definition swap_field :: "(('k, 'v) rbt_node \<Rightarrow> 'f) \<Rightarrow> ('f \<Rightarrow> ('k, 'v) rbt_node \<Rightarrow> ('k, 'v) rbt_node) \<Rightarrow>
    addr \<Rightarrow> addr \<Rightarrow> ('k, 'v, 'z) heap_scheme \<Rightarrow> ('k, 'v, 'z) heap_scheme option" where
  "swap_field get put a b s = do {
     an \<leftarrow> mem s a;
     let temp = get an;
     bn \<leftarrow> mem s b;
     s1 \<leftarrow> upd (Some a) (put (get bn)) s;
     upd (Some b) (put temp) s1
   }"

text \<open>\<^verbatim>\<open>if (x->fld == x) x->fld = y\<close>.\<close>

definition redirect :: "(('k, 'v) rbt_node \<Rightarrow> ptr) \<Rightarrow> (ptr \<Rightarrow> ('k, 'v) rbt_node \<Rightarrow> ('k, 'v) rbt_node) \<Rightarrow>
    addr \<Rightarrow> addr \<Rightarrow> ('k, 'v, 'z) heap_scheme \<Rightarrow> ('k, 'v, 'z) heap_scheme option" where
  "redirect get put x y s = do {
     xn \<leftarrow> mem s x;
     if get xn = Some x then upd (Some x) (put (Some y)) s else Some s
   }"

text \<open>\<^verbatim>\<open>__swap(a->color, b->color)\<close> through two pointers.\<close>

definition swap_color :: "ptr \<Rightarrow> ptr \<Rightarrow> ('k, 'v, 'z) heap_scheme \<Rightarrow> ('k, 'v, 'z) heap_scheme option" where
  "swap_color a b s = do {
     an \<leftarrow> rd a s;
     let temp = color an;
     bn \<leftarrow> rd b s;
     s1 \<leftarrow> upd a (\<lambda>n. n\<lparr>color := color bn\<rparr>) s;
     upd b (\<lambda>n. n\<lparr>color := temp\<rparr>) s1
   }"

section \<open>Tree operations of the map\<close>

definition swap_node :: "addr \<Rightarrow> addr \<Rightarrow> ('k, 'v) map_state \<Rightarrow> ('k, 'v) map_state option" where
  "swap_node a b s0 = do {
     let s = (if root s0 = Some a then s0\<lparr>root := Some b\<rparr>
              else if root s0 = Some b then s0\<lparr>root := Some a\<rparr> else s0);
     s \<leftarrow> swap_field prev (\<lambda>p x. x\<lparr>prev := p\<rparr>) a b s;
     s \<leftarrow> swap_field next (\<lambda>p x. x\<lparr>next := p\<rparr>) a b s;
     s \<leftarrow> swap_field father (\<lambda>p x. x\<lparr>father := p\<rparr>) a b s;
     s \<leftarrow> swap_field (\<lambda>x. child x LEFT) (\<lambda>p x. x\<lparr>child := (child x)(LEFT := p)\<rparr>) a b s;
     s \<leftarrow> swap_field (\<lambda>x. child x RIGHT) (\<lambda>p x. x\<lparr>child := (child x)(RIGHT := p)\<rparr>) a b s;
     s \<leftarrow> swap_field color (\<lambda>p x. x\<lparr>color := p\<rparr>) a b s;
     s \<leftarrow> swap_field which (\<lambda>p x. x\<lparr>which := p\<rparr>) a b s;
     s \<leftarrow> redirect prev (\<lambda>p x. x\<lparr>prev := p\<rparr>) a b s;
     s \<leftarrow> redirect next (\<lambda>p x. x\<lparr>next := p\<rparr>) a b s;
     s \<leftarrow> redirect father (\<lambda>p x. x\<lparr>father := p\<rparr>) a b s;
     s \<leftarrow> redirect (\<lambda>x. child x LEFT) (\<lambda>p x. x\<lparr>child := (child x)(LEFT := p)\<rparr>) a b s;
     s \<leftarrow> redirect (\<lambda>x. child x RIGHT) (\<lambda>p x. x\<lparr>child := (child x)(RIGHT := p)\<rparr>) a b s;
     s \<leftarrow> redirect prev (\<lambda>p x. x\<lparr>prev := p\<rparr>) b a s;
     s \<leftarrow> redirect next (\<lambda>p x. x\<lparr>next := p\<rparr>) b a s;
     s \<leftarrow> redirect father (\<lambda>p x. x\<lparr>father := p\<rparr>) b a s;
     s \<leftarrow> redirect (\<lambda>x. child x LEFT) (\<lambda>p x. x\<lparr>child := (child x)(LEFT := p)\<rparr>) b a s;
     s \<leftarrow> redirect (\<lambda>x. child x RIGHT) (\<lambda>p x. x\<lparr>child := (child x)(RIGHT := p)\<rparr>) b a s;
     s \<leftarrow> update_nearby a s;
     update_nearby b s
   }"

definition rotate :: "addr \<Rightarrow> bool \<Rightarrow> ('k, 'v) map_state \<Rightarrow> ('k, 'v) map_state option" where
  "rotate x w s0 = do {
     xn \<leftarrow> mem s0 x;
     let y = child xn (\<not> w);
     let s = (if root s0 = Some x then s0\<lparr>root := y\<rparr> else s0);
     yn \<leftarrow> rd y s;
     s \<leftarrow> upd (Some x) (\<lambda>n. n\<lparr>child := (child n)((\<not> w) := child yn w)\<rparr>) s;
     xn \<leftarrow> mem s x;
     s \<leftarrow> upd y (\<lambda>n. n\<lparr>father := father xn\<rparr>) s;
     xn \<leftarrow> mem s x;
     s \<leftarrow> upd y (\<lambda>n. n\<lparr>which := which xn\<rparr>) s;
     s \<leftarrow> upd (Some x) (\<lambda>n. n\<lparr>father := y\<rparr>) s;
     s \<leftarrow> upd (Some x) (\<lambda>n. n\<lparr>which := w\<rparr>) s;
     s \<leftarrow> update_nearby x s;
     ya \<leftarrow> y;
     update_nearby ya s
   }"

text \<open>\<^verbatim>\<open>p == nullptr || p->color == BLACK\<close>\<close>

definition null_or_black :: "ptr \<Rightarrow> ('k, 'v, 'z) heap_scheme \<Rightarrow> bool option" where
  "null_or_black p s = (case p of None \<Rightarrow> Some True
     | Some a \<Rightarrow> (case mem s a of None \<Rightarrow> None | Some n \<Rightarrow> Some (color n = BLACK)))"

partial_function (option) insert_fix :: "addr \<Rightarrow> ('k, 'v) map_state \<Rightarrow> ('k, 'v) map_state option" where
  "insert_fix target s =
    (case mem s target of None \<Rightarrow> None | Some tn \<Rightarrow>
      (case father tn of
         None \<Rightarrow> upd (Some target) (\<lambda>n. n\<lparr>color := BLACK\<rparr>) s
       | Some f \<Rightarrow>
          (case mem s f of None \<Rightarrow> None | Some fn \<Rightarrow>
            if color fn = BLACK then Some s
            else
              (case rd (father fn) s of None \<Rightarrow> None | Some gn \<Rightarrow>
                let grandpa = father fn; uncle = child gn (\<not> which fn) in
                (case null_or_black uncle s of None \<Rightarrow> None | Some ub \<Rightarrow>
                  if ub then
                    (if which tn = which fn then do {
                       s1 \<leftarrow> upd (Some f) (\<lambda>n. n\<lparr>color := BLACK\<rparr>) s;
                       s2 \<leftarrow> upd grandpa (\<lambda>n. n\<lparr>color := RED\<rparr>) s1;
                       tn2 \<leftarrow> mem s2 target;
                       g \<leftarrow> grandpa;
                       rotate g (\<not> which tn2) s2
                     } else do {
                       s1 \<leftarrow> upd (Some target) (\<lambda>n. n\<lparr>color := BLACK\<rparr>) s;
                       s2 \<leftarrow> upd grandpa (\<lambda>n. n\<lparr>color := RED\<rparr>) s1;
                       tn2 \<leftarrow> mem s2 target;
                       s3 \<leftarrow> rotate f (\<not> which tn2) s2;
                       tn3 \<leftarrow> mem s3 target;
                       g \<leftarrow> grandpa;
                       rotate g (\<not> which tn3) s3
                     })
                  else
                    (case upd uncle (\<lambda>n. n\<lparr>color := BLACK\<rparr>) s of None \<Rightarrow> None | Some s1 \<Rightarrow>
                    (case upd (Some f) (\<lambda>n. n\<lparr>color := BLACK\<rparr>) s1 of None \<Rightarrow> None | Some s2 \<Rightarrow>
                    (case upd grandpa (\<lambda>n. n\<lparr>color := RED\<rparr>) s2 of None \<Rightarrow> None | Some s3 \<Rightarrow>
                    (case grandpa of None \<Rightarrow> None | Some g \<Rightarrow> insert_fix g s3)))))))))"


text \<open>The test on the two children of the brother, \<^verbatim>\<open>cousin[LEFT]\<close> and \<^verbatim>\<open>cousin[RIGHT]\<close>,
  read through the brother at the moment of the test.\<close>

definition cousins_black :: "ptr \<Rightarrow> ('k, 'v, 'z) heap_scheme \<Rightarrow> bool option" where
  "cousins_black brother s = do {
     bn \<leftarrow> rd brother s;
     l \<leftarrow> null_or_black (child bn LEFT) s;
     if l then null_or_black (child bn RIGHT) s else Some False
   }"

text \<open>\<^verbatim>\<open>target->brother()\<close>\<close>

definition brother :: "addr \<Rightarrow> ('k, 'v, 'z) heap_scheme \<Rightarrow> ptr option" where
  "brother this s = do {
     n \<leftarrow> mem s this;
     fn \<leftarrow> rd (father n) s;
     Some (child fn (\<not> which n))
   }"

partial_function (option) erase_fix :: "addr \<Rightarrow> bool \<Rightarrow> ('k, 'v) map_state \<Rightarrow> ('k, 'v) map_state option" where
  "erase_fix target recursive s =
    (case mem s target of None \<Rightarrow> None | Some tn \<Rightarrow>
      if color tn = RED \<and> \<not> recursive then Some s
      else
        (let c = child tn (child tn LEFT = None) in
         case null_or_black c s of None \<Rightarrow> None | Some child_black \<Rightarrow>
           if \<not> child_black \<and> \<not> recursive then upd c (\<lambda>n. n\<lparr>color := BLACK\<rparr>) s
           else if root s = Some target then upd (Some target) (\<lambda>n. n\<lparr>color := BLACK\<rparr>) s
           else
             (let fa = father tn in
              case rd fa s of None \<Rightarrow> None | Some fn \<Rightarrow>
             (let br = child fn (\<not> which tn) in
              case rd br s of None \<Rightarrow> None | Some bn \<Rightarrow>
             (case (if color fn = BLACK \<and> color bn = BLACK then cousins_black br s else Some False)
              of None \<Rightarrow> None | Some all_black \<Rightarrow>
                if all_black then
                  (case upd br (\<lambda>n. n\<lparr>color := RED\<rparr>) s of None \<Rightarrow> None | Some s1 \<Rightarrow>
                   (case fa of None \<Rightarrow> None | Some f \<Rightarrow> erase_fix f True s1))
                else do {
                  (br, s) \<leftarrow> (if color bn = RED then do {
                      s \<leftarrow> upd fa (\<lambda>n. n\<lparr>color := RED\<rparr>) s;
                      s \<leftarrow> upd br (\<lambda>n. n\<lparr>color := BLACK\<rparr>) s;
                      tn \<leftarrow> mem s target;
                      f \<leftarrow> fa;
                      s \<leftarrow> rotate f (which tn) s;
                      br \<leftarrow> brother target s;
                      Some (br, s)
                    } else Some (br, s));
                  fn \<leftarrow> rd fa s;
                  bn \<leftarrow> rd br s;
                  resolved \<leftarrow> (if color fn = RED \<and> color bn = BLACK then cousins_black br s else Some False);
                  if resolved then do {
                    s \<leftarrow> upd fa (\<lambda>n. n\<lparr>color := BLACK\<rparr>) s;
                    upd br (\<lambda>n. n\<lparr>color := RED\<rparr>) s
                  } else do {
                    tn \<leftarrow> mem s target;
                    bn \<leftarrow> rd br s;
                    far_black \<leftarrow> null_or_black (child bn (\<not> which tn)) s;
                    (br, s) \<leftarrow> (if far_black then do {
                        tn \<leftarrow> mem s target;
                        bn \<leftarrow> rd br s;
                        s \<leftarrow> upd (child bn (which tn)) (\<lambda>n. n\<lparr>color := BLACK\<rparr>) s;
                        s \<leftarrow> upd br (\<lambda>n. n\<lparr>color := RED\<rparr>) s;
                        tn \<leftarrow> mem s target;
                        b \<leftarrow> br;
                        s \<leftarrow> rotate b (\<not> which tn) s;
                        br \<leftarrow> brother target s;
                        Some (br, s)
                      } else Some (br, s));
                    s \<leftarrow> swap_color fa br s;
                    tn \<leftarrow> mem s target;
                    bn \<leftarrow> rd br s;
                    s \<leftarrow> upd (child bn (\<not> which tn)) (\<lambda>n. n\<lparr>color := BLACK\<rparr>) s;
                    tn \<leftarrow> mem s target;
                    f \<leftarrow> fa;
                    rotate f (which tn) s
                  }
                })))))"


text \<open>The \<^verbatim>\<open>while (true)\<close> loop of \<^verbatim>\<open>__insert\<close>. It returns the node it stops at with
  \<open>None\<close> when that node holds an equivalent key, and with the side of the free child
  position otherwise.\<close>

partial_function (option) insert_descend :: "('k \<Rightarrow> 'k \<Rightarrow> bool) \<Rightarrow> 'k \<Rightarrow> addr \<Rightarrow>
    ('k, 'v, 'z) heap_scheme \<Rightarrow> (addr \<times> bool option) option" where
  "insert_descend comparing_function key cur_node s =
    (case mem s cur_node of None \<Rightarrow> None | Some n \<Rightarrow>
      (case val n of None \<Rightarrow> None | Some kv \<Rightarrow>
        (let w = comparing_function (fst kv) key in
         if \<not> w \<and> \<not> comparing_function key (fst kv) then Some (cur_node, None)
         else (case child n w of None \<Rightarrow> Some (cur_node, Some w)
               | Some c \<Rightarrow> insert_descend comparing_function key c s))))"

text \<open>\<^verbatim>\<open>__insert(key, value)\<close>. The template parameter \<^verbatim>\<open>U\<close> is either the pair type or
  the key type; in the second case the node constructor pairs the key with \<^verbatim>\<open>V()\<close>, so
  the model always receives the pair to store.\<close>

definition insert_node :: "('k \<Rightarrow> 'k \<Rightarrow> bool) \<Rightarrow> 'k \<Rightarrow> ('k \<times> 'v) \<Rightarrow> ('k, 'v) map_state \<Rightarrow>
    ((addr \<times> bool) \<times> ('k, 'v) map_state) option" where
  "insert_node comparing_function key value s =
    (case root s of
       None \<Rightarrow> do {
         (new, s) \<leftarrow> new_node value (Some (head s)) (Some (tail s)) None None None LEFT s;
         let s = s\<lparr>root := Some new\<rparr>;
         let s = s\<lparr>msize := msize s + 1\<rparr>;
         s \<leftarrow> insert_fix new s;
         Some ((new, True), s)
       }
     | Some r \<Rightarrow> do {
         (cur_node, found) \<leftarrow> insert_descend comparing_function key r s;
         case found of
           None \<Rightarrow> Some ((cur_node, False), s)
         | Some w \<Rightarrow> do {
             cn \<leftarrow> mem s cur_node;
             (new, s) \<leftarrow> new_node value (if w then Some cur_node else prev cn)
                            (if w then next cn else Some cur_node) (Some cur_node) None None w s;
             let s = s\<lparr>msize := msize s + 1\<rparr>;
             s \<leftarrow> insert_fix new s;
             Some ((new, True), s)
           }
       })"

text \<open>\<^verbatim>\<open>__size--\<close> on the unsigned \<^verbatim>\<open>size_t\<close> (64 bits) wraps at zero.\<close>

definition size_dec :: "nat \<Rightarrow> nat" where
  "size_dec n = (if n = 0 then 2 ^ 64 - 1 else n - 1)"

text \<open>\<^verbatim>\<open>erase(rbt_node *target)\<close>\<close>

definition erase_node :: "addr \<Rightarrow> ('k, 'v) map_state \<Rightarrow> ('k, 'v) map_state option" where
  "erase_node target s = do {
     let s = s\<lparr>msize := size_dec (msize s)\<rparr>;
     tn \<leftarrow> mem s target;
     s \<leftarrow> (if child tn LEFT \<noteq> None \<and> child tn RIGHT \<noteq> None
           then do { b \<leftarrow> next tn; swap_node target b s } else Some s);
     s \<leftarrow> erase_fix target False s;
     tn \<leftarrow> mem s target;
     s \<leftarrow> link_node (prev tn) (next tn) s;
     tn \<leftarrow> mem s target;
     let c = child tn (child tn LEFT = None);
     s \<leftarrow> (if Some target = root s then Some (s\<lparr>root := c\<rparr>)
           else upd (father tn) (\<lambda>n. n\<lparr>child := (child n)(which tn := c)\<rparr>) s);
     s \<leftarrow> (case c of None \<Rightarrow> Some s
           | Some ca \<Rightarrow> do {
               tn \<leftarrow> mem s target;
               s \<leftarrow> upd c (\<lambda>n. n\<lparr>father := father tn\<rparr>) s;
               tn \<leftarrow> mem s target;
               upd c (\<lambda>n. n\<lparr>which := which tn\<rparr>) s
             });
     Some (s\<lparr>mem := (mem s)(target := None)\<rparr>)
   }"

text \<open>The loop of \<^verbatim>\<open>find\<close>; the result is the node found, or \<^verbatim>\<open>nullptr\<close> when the
  loop runs off the tree.\<close>

partial_function (option) find_loop :: "('k \<Rightarrow> 'k \<Rightarrow> bool) \<Rightarrow> 'k \<Rightarrow> ptr \<Rightarrow>
    ('k, 'v, 'z) heap_scheme \<Rightarrow> ptr option" where
  "find_loop comparing_function key cur s =
    (case cur of None \<Rightarrow> Some None
     | Some c \<Rightarrow>
       (case mem s c of None \<Rightarrow> None | Some n \<Rightarrow>
         (case val n of None \<Rightarrow> None | Some kv \<Rightarrow>
           (if comparing_function key (fst kv) then find_loop comparing_function key (child n LEFT) s
            else if comparing_function (fst kv) key then find_loop comparing_function key (child n RIGHT) s
            else Some (Some c)))))"

text \<open>The node of the iterator that \<^verbatim>\<open>find\<close> returns (\<^verbatim>\<open>tail\<close> for \<^verbatim>\<open>end()\<close>).\<close>

definition find_node :: "('k \<Rightarrow> 'k \<Rightarrow> bool) \<Rightarrow> 'k \<Rightarrow> ('k, 'v) map_state \<Rightarrow> addr option" where
  "find_node comparing_function key s = do {
     r \<leftarrow> find_loop comparing_function key (root s) s;
     Some (case r of None \<Rightarrow> tail s | Some c \<Rightarrow> c)
   }"

text \<open>The loop of \<^verbatim>\<open>clear\<close>, deleting the nodes between \<^verbatim>\<open>head\<close> and \<^verbatim>\<open>tail\<close>.\<close>

partial_function (option) clear_loop :: "ptr \<Rightarrow> ('k, 'v) map_state \<Rightarrow> ('k, 'v) map_state option" where
  "clear_loop cur s =
    (if cur = Some (tail s) then Some s
     else (case rd cur s of None \<Rightarrow> None
           | Some n \<Rightarrow> (case cur of None \<Rightarrow> None
               | Some temp \<Rightarrow> clear_loop (next n) (s\<lparr>mem := (mem s)(temp := None)\<rparr>))))"

definition clear :: "('k, 'v) map_state \<Rightarrow> ('k, 'v) map_state option" where
  "clear s = do {
     let s = s\<lparr>msize := 0\<rparr>;
     hn \<leftarrow> mem s (head s);
     s \<leftarrow> clear_loop (next hn) s;
     s \<leftarrow> upd (Some (head s)) (\<lambda>n. n\<lparr>next := Some (tail s)\<rparr>) s;
     s \<leftarrow> upd (Some (tail s)) (\<lambda>n. n\<lparr>prev := Some (head s)\<rparr>) s;
     Some (s\<lparr>root := None\<rparr>)
   }"

text \<open>The cloning constructor \<^verbatim>\<open>rbt_node(other, father, prev, next)\<close> behind \<^verbatim>\<open>new\<close>:
  it copies the pair, the side and the colour of \<^verbatim>\<open>other\<close>, splices the new node
  between \<^verbatim>\<open>prev\<close> and \<^verbatim>\<open>next\<close>, and clones the two subtrees.\<close>

partial_function (option) clone :: "ptr \<Rightarrow> ptr \<Rightarrow> ptr \<Rightarrow> ptr \<Rightarrow>
    ('k, 'v, 'z) heap_scheme \<Rightarrow> (addr \<times> ('k, 'v, 'z) heap_scheme) option" where
  "clone other fa p n s = do {
     on \<leftarrow> rd other s;
     kv \<leftarrow> val on;
     let this = brk s;
     let s = s\<lparr>mem := (mem s)(this \<mapsto> \<lparr>prev = p, next = n, father = fa, child = (\<lambda>d. None),
                  which = which on, color = color on, val = Some kv\<rparr>), brk := Suc this\<rparr>;
     s \<leftarrow> upd n (\<lambda>x. x\<lparr>prev := Some this\<rparr>) s;
     s \<leftarrow> upd p (\<lambda>x. x\<lparr>next := Some this\<rparr>) s;
     on \<leftarrow> rd other s;
     s \<leftarrow> (case child on LEFT of
             None \<Rightarrow> upd (Some this) (\<lambda>x. x\<lparr>child := (child x)(LEFT := None)\<rparr>) s
           | Some olc \<Rightarrow> do {
               (l, s) \<leftarrow> clone (Some olc) (Some this) p (Some this) s;
               upd (Some this) (\<lambda>x. x\<lparr>child := (child x)(LEFT := Some l)\<rparr>) s
             });
     on \<leftarrow> rd other s;
     s \<leftarrow> (case child on RIGHT of
             None \<Rightarrow> upd (Some this) (\<lambda>x. x\<lparr>child := (child x)(RIGHT := None)\<rparr>) s
           | Some orc \<Rightarrow> do {
               (r, s) \<leftarrow> clone (Some orc) (Some this) (Some this) n s;
               upd (Some this) (\<lambda>x. x\<lparr>child := (child x)(RIGHT := Some r)\<rparr>) s
             });
     Some (this, s)
   }"


section \<open>The public interface of one map\<close>

text \<open>The exceptions of \<^verbatim>\<open>exceptions.hpp\<close> that the map throws. \<open>terminate\<close> is the
  outcome of a \<^verbatim>\<open>throw\<close> inside a function declared \<^verbatim>\<open>noexcept\<close>: the exception
  cannot leave the function and \<^verbatim>\<open>std::terminate\<close> ends the program.\<close>

datatype error = index_out_of_bound | invalid_iterator | terminate

text \<open>An iterator: the address of the map object it was made for, and the node.\<close>

record iterator =
  it_map :: ptr
  node :: ptr

text \<open>\<^verbatim>\<open>__insert(const value_type &value)\<close> and \<^verbatim>\<open>__insert(const K &key)\<close>; the second
  takes the value \<^verbatim>\<open>V()\<close> of the default constructor as \<open>dflt\<close>.\<close>

definition insert_value :: "('k \<Rightarrow> 'k \<Rightarrow> bool) \<Rightarrow> ('k \<times> 'v) \<Rightarrow> ('k, 'v) map_state \<Rightarrow>
    ((addr \<times> bool) \<times> ('k, 'v) map_state) option" where
  "insert_value comparing_function value s = insert_node comparing_function (fst value) value s"

definition insert_key :: "('k \<Rightarrow> 'k \<Rightarrow> bool) \<Rightarrow> 'v \<Rightarrow> 'k \<Rightarrow> ('k, 'v) map_state \<Rightarrow>
    (addr \<times> ('k, 'v) map_state) option" where
  "insert_key comparing_function dflt key s = do {
     ((n, b), s) \<leftarrow> insert_node comparing_function key (key, dflt) s;
     Some (n, s)
   }"

definition map_empty :: "('k, 'v) map_state \<Rightarrow> bool" where
  "map_empty s = (msize s = 0)"

definition map_size :: "('k, 'v) map_state \<Rightarrow> nat" where
  "map_size s = msize s"


definition map_end :: "addr \<Rightarrow> ('k, 'v) map_state \<Rightarrow> iterator" where
  "map_end this s = \<lparr>it_map = Some this, node = Some (tail s)\<rparr>"

definition map_find :: "('k \<Rightarrow> 'k \<Rightarrow> bool) \<Rightarrow> addr \<Rightarrow> 'k \<Rightarrow> ('k, 'v) map_state \<Rightarrow> iterator option" where
  "map_find comparing_function this key s = do {
     n \<leftarrow> find_node comparing_function key s;
     Some \<lparr>it_map = Some this, node = Some n\<rparr>
   }"

definition map_count :: "('k \<Rightarrow> 'k \<Rightarrow> bool) \<Rightarrow> addr \<Rightarrow> 'k \<Rightarrow> ('k, 'v) map_state \<Rightarrow> nat option" where
  "map_count comparing_function this key s = do {
     it \<leftarrow> map_find comparing_function this key s;
     Some (if node it = node (map_end this s) then 0 else 1)
   }"

text \<open>\<^verbatim>\<open>iterator::operator->\<close> given the map object the iterator points to; the result
  is the pointer \<^verbatim>\<open>node->value\<close>. The function is declared \<^verbatim>\<open>noexcept\<close>.\<close>

definition it_arrow :: "iterator \<Rightarrow> ('k, 'v) map_state \<Rightarrow> (error + ('k \<times> 'v) option) option" where
  "it_arrow it s =
    (if node it = None \<or> node it = Some (tail s) then Some (Inl terminate)
     else do { n \<leftarrow> rd (node it) s; Some (Inr (val n)) })"

text \<open>\<^verbatim>\<open>at\<close> returns a reference to the second component of the pair a node owns; the
  model returns the address of that node.\<close>

definition map_at :: "('k \<Rightarrow> 'k \<Rightarrow> bool) \<Rightarrow> addr \<Rightarrow> 'k \<Rightarrow> ('k, 'v) map_state \<Rightarrow> (error + addr) option" where
  "map_at comparing_function this key s = do {
     it \<leftarrow> map_find comparing_function this key s;
     if node it = node (map_end this s) then Some (Inl index_out_of_bound)
     else do {
       r \<leftarrow> it_arrow it s;
       case r of Inl e \<Rightarrow> Some (Inl e)
       | Inr p \<Rightarrow> (case p of None \<Rightarrow> None | Some kv \<Rightarrow> map_option Inr (node it))
     }
   }"

text \<open>The two overloads of \<^verbatim>\<open>operator[]\<close>: the first inserts, the \<^verbatim>\<open>const\<close> one is \<^verbatim>\<open>at\<close>.\<close>

definition map_subscript :: "('k \<Rightarrow> 'k \<Rightarrow> bool) \<Rightarrow> 'v \<Rightarrow> 'k \<Rightarrow> ('k, 'v) map_state \<Rightarrow>
    (addr \<times> ('k, 'v) map_state) option" where
  "map_subscript comparing_function dflt key s = do {
     (n, s) \<leftarrow> insert_key comparing_function dflt key s;
     nd \<leftarrow> mem s n;
     kv \<leftarrow> val nd;
     Some (n, s)
   }"

definition map_subscript_const :: "('k \<Rightarrow> 'k \<Rightarrow> bool) \<Rightarrow> addr \<Rightarrow> 'k \<Rightarrow> ('k, 'v) map_state \<Rightarrow> (error + addr) option" where
  "map_subscript_const comparing_function this key s = map_at comparing_function this key s"

definition map_insert :: "('k \<Rightarrow> 'k \<Rightarrow> bool) \<Rightarrow> addr \<Rightarrow> ('k \<times> 'v) \<Rightarrow> ('k, 'v) map_state \<Rightarrow>
    ((iterator \<times> bool) \<times> ('k, 'v) map_state) option" where
  "map_insert comparing_function this value s = do {
     ((n, b), s) \<leftarrow> insert_value comparing_function value s;
     Some ((\<lparr>it_map = Some this, node = Some n\<rparr>, b), s)
   }"

definition map_erase :: "addr \<Rightarrow> iterator \<Rightarrow> ('k, 'v) map_state \<Rightarrow> (error + ('k, 'v) map_state) option" where
  "map_erase this pos s =
    (if it_map pos \<noteq> Some this \<or> node pos = node (map_end this s) then Some (Inl invalid_iterator)
     else do { target \<leftarrow> node pos; s \<leftarrow> erase_node target s; Some (Inr s) })"


text \<open>\<^verbatim>\<open>iterator::operator++\<close> and \<^verbatim>\<open>operator--\<close> (prefix), given the map object that
  \<^verbatim>\<open>__map\<close> points to. The only thing they change is the iterator, which is returned.\<close>

definition it_incr :: "iterator \<Rightarrow> ('k, 'v) map_state \<Rightarrow> (error + iterator) option" where
  "it_incr it s =
    (if node it = None \<or> node it = Some (tail s) then Some (Inl invalid_iterator)
     else do { n \<leftarrow> rd (node it) s; Some (Inr (it\<lparr>node := next n\<rparr>)) })"

definition it_decr :: "iterator \<Rightarrow> ('k, 'v) map_state \<Rightarrow> (error + iterator) option" where
  "it_decr it s =
    (if node it = None then Some (Inl invalid_iterator)
     else do {
       hn \<leftarrow> mem s (head s);
       if node it = next hn then Some (Inl invalid_iterator)
       else do { n \<leftarrow> rd (node it) s; Some (Inr (it\<lparr>node := prev n\<rparr>)) }
     })"

section \<open>Several maps in one memory\<close>

text \<open>Map objects have addresses of their own: an iterator stores one, and assignment
  compares two. \<open>objs\<close> holds the data members of every map object; the nodes of all maps
  share the node heap.\<close>

record map_obj =
  obj_head :: addr
  obj_tail :: addr
  obj_root :: ptr
  obj_size :: nat

record ('k, 'v) world = "('k, 'v) heap" +
  objs :: "addr \<rightharpoonup> map_obj"

text \<open>A member function runs on the members of \<^verbatim>\<open>*this\<close> and the heap (\<open>view\<close>); what it
  leaves is written back (\<open>commit\<close>).\<close>

definition view :: "addr \<Rightarrow> ('k, 'v) world \<Rightarrow> ('k, 'v) map_state option" where
  "view this w = (case objs w this of None \<Rightarrow> None
     | Some ob \<Rightarrow> Some \<lparr>mem = mem w, brk = brk w, head = obj_head ob, tail = obj_tail ob,
                       root = obj_root ob, msize = obj_size ob\<rparr>)"

definition commit :: "addr \<Rightarrow> ('k, 'v) map_state \<Rightarrow> ('k, 'v) world \<Rightarrow> ('k, 'v) world" where
  "commit this s w = w\<lparr>mem := mem s, brk := brk s,
     objs := (objs w)(this \<mapsto> \<lparr>obj_head = head s, obj_tail = tail s, obj_root = root s, obj_size = msize s\<rparr>)\<rparr>"

text \<open>The constructor \<^verbatim>\<open>rbt_node()\<close> of a sentinel sets \<^verbatim>\<open>value\<close> only; the other fields
  keep whatever the fresh memory holds, here the fields of \<open>junk\<close>.\<close>

definition new_sentinel :: "('k, 'v) rbt_node \<Rightarrow> ('k, 'v, 'z) heap_scheme \<Rightarrow> addr \<times> ('k, 'v, 'z) heap_scheme" where
  "new_sentinel junk s = (brk s, s\<lparr>mem := (mem s)(brk s \<mapsto> junk\<lparr>val := None\<rparr>), brk := Suc (brk s)\<rparr>)"

text \<open>The default constructor \<^verbatim>\<open>map()\<close>, building the object at address \<open>this\<close>.\<close>

definition map_ctor :: "('k, 'v) rbt_node \<Rightarrow> ('k, 'v) rbt_node \<Rightarrow> addr \<Rightarrow> ('k, 'v) world \<Rightarrow> ('k, 'v) world option" where
  "map_ctor junk1 junk2 this w = do {
     let (h, w) = new_sentinel junk1 w;
     let (t, w) = new_sentinel junk2 w;
     let s = \<lparr>mem = mem w, brk = brk w, head = h, tail = t, root = None, msize = 0\<rparr>;
     s \<leftarrow> upd (Some (head s)) (\<lambda>n. n\<lparr>next := Some (tail s)\<rparr>) s;
     s \<leftarrow> upd (Some (tail s)) (\<lambda>n. n\<lparr>prev := Some (head s)\<rparr>) s;
     Some (commit this s w)
   }"

text \<open>The copy constructor \<^verbatim>\<open>map(const map &other)\<close>\<close>

definition map_copy_ctor :: "('k, 'v) rbt_node \<Rightarrow> ('k, 'v) rbt_node \<Rightarrow> addr \<Rightarrow> addr \<Rightarrow>
    ('k, 'v) world \<Rightarrow> ('k, 'v) world option" where
  "map_copy_ctor junk1 junk2 this other w = do {
     w \<leftarrow> map_ctor junk1 junk2 this w;
     ob \<leftarrow> objs w other;
     if obj_size ob = 0 then Some w
     else do {
       s \<leftarrow> view this w;
       let s = s\<lparr>msize := obj_size ob\<rparr>;
       ob \<leftarrow> objs w other;
       (r, s) \<leftarrow> clone (obj_root ob) None (Some (head s)) (Some (tail s)) s;
       Some (commit this (s\<lparr>root := Some r\<rparr>) w)
     }
   }"

text \<open>The assignment \<^verbatim>\<open>operator=(const map &other)\<close>\<close>

definition map_assign :: "addr \<Rightarrow> addr \<Rightarrow> ('k, 'v) world \<Rightarrow> ('k, 'v) world option" where
  "map_assign this other w =
    (if this = other then Some w
     else do {
       s \<leftarrow> view this w;
       s \<leftarrow> clear s;
       ob \<leftarrow> objs w other;
       let s = s\<lparr>msize := obj_size ob\<rparr>;
       if obj_size ob = 0 then Some (commit this s w)
       else do {
         (r, s) \<leftarrow> clone (obj_root ob) None (Some (head s)) (Some (tail s)) s;
         Some (commit this (s\<lparr>root := Some r\<rparr>) w)
       }
     })"

text \<open>A member function of the map at \<open>this\<close>, run in the shared memory.\<close>

definition on_map :: "addr \<Rightarrow> (('k, 'v) map_state \<Rightarrow> ('r \<times> ('k, 'v) map_state) option) \<Rightarrow>
    ('k, 'v) world \<Rightarrow> ('r \<times> ('k, 'v) world) option" where
  "on_map this f w = do {
     s \<leftarrow> view this w;
     (r, s) \<leftarrow> f s;
     Some (r, commit this s w)
   }"





section \<open>Abstraction of the memory\<close>

section \<open>Abstract trees\<close>

datatype tree = Leaf | Node tree addr color_e tree

fun rootp :: "tree \<Rightarrow> ptr" where
  "rootp Leaf = None"
| "rootp (Node l a c r) = Some a"

fun inorder :: "tree \<Rightarrow> addr list" where
  "inorder Leaf = []"
| "inorder (Node l a c r) = inorder l @ a # inorder r"

fun col :: "tree \<Rightarrow> color_e" where
  "col Leaf = BLACK"
| "col (Node l a c r) = c"

fun bheight :: "tree \<Rightarrow> nat" where
  "bheight Leaf = 0"
| "bheight (Node l a c r) = (if c = BLACK then Suc (bheight l) else bheight l)"

fun invc :: "tree \<Rightarrow> bool" where
  "invc Leaf = True"
| "invc (Node l a c r) = ((c = RED \<longrightarrow> col l = BLACK \<and> col r = BLACK) \<and> invc l \<and> invc r)"

fun invh :: "tree \<Rightarrow> bool" where
  "invh Leaf = True"
| "invh (Node l a c r) = (bheight l = bheight r \<and> invh l \<and> invh r)"

definition nd :: "bool \<Rightarrow> tree \<Rightarrow> addr \<Rightarrow> color_e \<Rightarrow> tree \<Rightarrow> tree" where
  "nd w x a c y = (if w then Node y a c x else Node x a c y)"

fun tr :: "(addr \<rightharpoonup> ('k, 'v) rbt_node) \<Rightarrow> ptr \<Rightarrow> bool \<Rightarrow> tree \<Rightarrow> bool" where
  "tr h f w Leaf = True"
| "tr h f w (Node l a c r) = (case h a of None \<Rightarrow> False | Some n \<Rightarrow>
     father n = f \<and> (f \<noteq> None \<longrightarrow> which n = w) \<and> color n = c \<and>
     child n LEFT = rootp l \<and> child n RIGHT = rootp r \<and> val n \<noteq> None \<and>
     tr h (Some a) LEFT l \<and> tr h (Some a) RIGHT r)"

datatype frame = Fr bool addr color_e tree

fun plug :: "frame list \<Rightarrow> tree \<Rightarrow> tree" where
  "plug [] t = t"
| "plug (Fr w p c sib # fs) t = plug fs (nd w t p c sib)"

fun top :: "frame list \<Rightarrow> ptr" where
  "top [] = None"
| "top (Fr w p c sib # fs) = Some p"

fun side :: "frame list \<Rightarrow> bool" where
  "side [] = LEFT"
| "side (Fr w p c sib # fs) = w"

fun pre :: "frame list \<Rightarrow> addr list" where
  "pre [] = []"
| "pre (Fr w p c sib # fs) = (if w then pre fs @ inorder sib @ [p] else pre fs)"

fun post :: "frame list \<Rightarrow> addr list" where
  "post [] = []"
| "post (Fr w p c sib # fs) = (if w then post fs else p # inorder sib @ post fs)"

fun trc :: "(addr \<rightharpoonup> ('k, 'v) rbt_node) \<Rightarrow> frame list \<Rightarrow> ptr \<Rightarrow> bool" where
  "trc h [] q = True"
| "trc h (Fr w p c sib # fs) q = (case h p of None \<Rightarrow> False | Some n \<Rightarrow>
     father n = top fs \<and> (fs \<noteq> [] \<longrightarrow> which n = side fs) \<and> color n = c \<and>
     child n w = q \<and> child n (\<not> w) = rootp sib \<and> val n \<noteq> None \<and>
     tr h (Some p) (\<not> w) sib \<and> trc h fs (Some p))"

definition link :: "(addr \<rightharpoonup> ('k, 'v) rbt_node) \<Rightarrow> addr \<Rightarrow> addr \<Rightarrow> bool" where
  "link h a b = (case (h a, h b) of (Some an, Some bn) \<Rightarrow> next an = Some b \<and> prev bn = Some a | _ \<Rightarrow> False)"

definition shape :: "('k, 'v) map_state \<Rightarrow> tree \<Rightarrow> bool" where
  "shape s t = (tr (mem s) None LEFT t \<and> root s = rootp t \<and>
     distinct (head s # inorder t @ [tail s]) \<and>
     successively (link (mem s)) (head s # inorder t @ [tail s]) \<and>
     (\<forall>a. mem s a \<noteq> None \<longrightarrow> a < brk s))"

definition mo :: "ptr \<Rightarrow> (('k, 'v) rbt_node \<Rightarrow> ('k, 'v) rbt_node) \<Rightarrow> (addr \<rightharpoonup> ('k, 'v) rbt_node) \<Rightarrow> (addr \<rightharpoonup> ('k, 'v) rbt_node)" where
  "mo p f h = (case p of None \<Rightarrow> h | Some a \<Rightarrow> (case h a of None \<Rightarrow> h | Some n \<Rightarrow> h(a \<mapsto> f n)))"

definition same_payload :: "('k, 'v) map_state \<Rightarrow> ('k, 'v) map_state \<Rightarrow> bool" where
  "same_payload s s' = (head s' = head s \<and> tail s' = tail s \<and> msize s' = msize s \<and> brk s' = brk s \<and>
     (\<forall>a. map_option val (mem s' a) = map_option val (mem s a)))"

fun pcol :: "frame list \<Rightarrow> color_e" where
  "pcol [] = BLACK"
| "pcol (Fr w p c sib # fs) = c"

fun invc_ctx :: "frame list \<Rightarrow> bool" where
  "invc_ctx [] = True"
| "invc_ctx (Fr w p c sib # fs) = (invc sib \<and> (c = RED \<longrightarrow> col sib = BLACK \<and> pcol fs = BLACK) \<and> invc_ctx fs)"

fun invh_ctx :: "frame list \<Rightarrow> nat \<Rightarrow> bool" where
  "invh_ctx [] k = True"
| "invh_ctx (Fr w p c sib # fs) k = (invh sib \<and> bheight sib = k \<and> invh_ctx fs (if c = BLACK then Suc k else k))"

fun rcol :: "frame list \<Rightarrow> color_e \<Rightarrow> color_e" where
  "rcol [] c0 = c0"
| "rcol (Fr w p c sib # fs) c0 = rcol fs c"

definition rbt :: "tree \<Rightarrow> bool" where
  "rbt t = (invc t \<and> invh t \<and> col t = BLACK)"

definition tf :: "('k, 'v) rbt_node \<Rightarrow> ptr \<times> bool \<times> color_e \<times> (bool \<Rightarrow> ptr) \<times> bool" where
  "tf n = (father n, which n, color n, child n, val n \<noteq> None)"

definition key_at :: "(addr \<rightharpoonup> ('k, 'v) rbt_node) \<Rightarrow> addr \<Rightarrow> 'k" where
  "key_at h a = fst (the (val (the (h a))))"

definition pair_at :: "(addr \<rightharpoonup> ('k, 'v) rbt_node) \<Rightarrow> addr \<Rightarrow> 'k \<times> 'v" where
  "pair_at h a = the (val (the (h a)))"

definition map_inv :: "('k \<Rightarrow> 'k \<Rightarrow> bool) \<Rightarrow> ('k, 'v) map_state \<Rightarrow> tree \<Rightarrow> bool" where
  "map_inv cmp s t = (shape s t \<and> rbt t \<and> sorted_wrt cmp (map (key_at (mem s)) (inorder t))
     \<and> msize s = length (inorder t))"

definition ins_frame :: "('k, 'v) map_state \<Rightarrow> ('k, 'v) map_state \<Rightarrow> ('k \<times> 'v) \<Rightarrow> bool" where
  "ins_frame s s' v = (head s' = head s \<and> tail s' = tail s \<and> msize s' = msize s + 1 \<and> brk s' = Suc (brk s)
     \<and> map_option val (mem s' (brk s)) = Some (Some v)
     \<and> (\<forall>b. b \<noteq> brk s \<longrightarrow> map_option val (mem s' b) = map_option val (mem s b)))"

text \<open>Two keys are equivalent when neither is less than the other.\<close>

definition equiv_key :: "('k \<Rightarrow> 'k \<Rightarrow> bool) \<Rightarrow> 'k \<Rightarrow> 'k \<Rightarrow> bool" where
  "equiv_key cmp a b = (\<not> cmp a b \<and> \<not> cmp b a)"

text \<open>What the code expects of \<^verbatim>\<open>Compare\<close>: a transitive relation whose incomparability
  is transitive too.\<close>

definition compare_ok :: "('k \<Rightarrow> 'k \<Rightarrow> bool) \<Rightarrow> bool" where
  "compare_ok cmp = (transp cmp \<and> (\<forall>a b c. equiv_key cmp a b \<and> equiv_key cmp b c \<longrightarrow> equiv_key cmp a c))"

text \<open>A concrete memory for the examples: \<open>world1\<close> holds one empty map, built by the default
  constructor at address 100, whose sentinels are the nodes 0 (\<^verbatim>\<open>head\<close>) and 1 (\<^verbatim>\<open>tail\<close>);
  \<open>state0\<close> is that map, and \<open>state1\<close> is what inserting the pair (1, 10) makes of it.\<close>

definition junk :: "(int, int) rbt_node" where
  "junk = \<lparr>prev = None, next = None, father = None, child = (\<lambda>d. None), which = LEFT,
            color = RED, val = None\<rparr>"



definition state0 :: "(int, int) map_state" where
  "state0 = \<lparr>mem = [0 \<mapsto> junk\<lparr>next := Some 1\<rparr>, 1 \<mapsto> junk\<lparr>prev := Some 0\<rparr>], brk = 2,
     head = 0, tail = 1, root = None, msize = 0\<rparr>"

definition state1 :: "(int, int) map_state" where
  "state1 = \<lparr>mem = [0 \<mapsto> junk\<lparr>next := Some 2\<rparr>, 1 \<mapsto> junk\<lparr>prev := Some 2\<rparr>,
       2 \<mapsto> \<lparr>prev = Some 0, next = Some 1, father = None, child = (\<lambda>d. None), which = LEFT,
            color = BLACK, val = Some (1, 10)\<rparr>], brk = 3,
     head = 0, tail = 1, root = Some 2, msize = 1\<rparr>"


section \<open>Proofs\<close>

lemma nd_simps [simp]: "nd True x a c y = Node y a c x" "nd False x a c y = Node x a c y"
  by (simp_all add: nd_def)

lemma rootp_nd [simp]: "rootp (nd w x a c y) = Some a" by (simp add: nd_def)

lemma col_nd [simp]: "col (nd w x a c y) = c" by (simp add: nd_def)

lemma nd_flip: "nd w x a c y = nd (\<not> w) y a c x" by (simp add: nd_def)

lemma set_inorder_nd [simp]: "set (inorder (nd w x a c y)) = insert a (set (inorder x) \<union> set (inorder y))"
  by (auto simp: nd_def)

lemma inorder_plug: "inorder (plug fs t) = pre fs @ inorder t @ post fs"
  by (induction fs t rule: plug.induct) (auto simp: nd_def)

lemma rootp_plug: "rootp (plug fs t) = (if fs = [] then rootp t else top [last fs])"
  by (induction fs t rule: plug.induct) (auto simp: nd_def)

lemma top_None [simp]: "(top fs = None) = (fs = [])" "(None = top fs) = (fs = [])"
  by (cases fs rule: top.cases; auto)+

lemma tr_frame: "(\<And>a. a \<in> set (inorder t) \<Longrightarrow> h' a = h a) \<Longrightarrow> tr h' f w t = tr h f w t"
  by (induction t arbitrary: f w) (auto split: option.splits)

lemma tr_nd: "tr h f w (nd v x a c y) = (case h a of None \<Rightarrow> False | Some n \<Rightarrow>
     father n = f \<and> (f \<noteq> None \<longrightarrow> which n = w) \<and> color n = c \<and>
     child n v = rootp x \<and> child n (\<not> v) = rootp y \<and> val n \<noteq> None \<and>
     tr h (Some a) v x \<and> tr h (Some a) (\<not> v) y)"
  by (cases v) (auto split: option.splits)

lemma tr_plug: "tr h None w0 (plug fs t) = (trc h fs (rootp t) \<and> tr h (top fs) (side fs) t)"
proof (induction fs arbitrary: t)
  case Nil
  then show ?case by (cases t) (auto split: option.splits)
next
  case (Cons fr fs)
  obtain w p c sib where fr: "fr = Fr w p c sib" by (cases fr)
  show ?case
    unfolding fr plug.simps Cons.IH
    by (cases fs) (auto simp: tr_nd split: option.splits)
qed

lemma mo_apply: "mo p f h b = (if p = Some b then map_option f (h b) else h b)"
  by (auto simp: mo_def split: option.splits)

lemma mo_None [simp]: "mo None f h = h" by (simp add: mo_def)

lemma upd_mo: "rd p s \<noteq> None \<Longrightarrow> upd p f s = Some (s\<lparr>mem := mo p f (mem s)\<rparr>)"
  by (auto simp: upd_def mo_def rd_def split: option.splits)

lemma upd_opt_mo: "(\<And>a. p = Some a \<Longrightarrow> mem s a \<noteq> None) \<Longrightarrow>
  (case p of None \<Rightarrow> Some s | Some a \<Rightarrow> upd (Some a) f s) = Some (s\<lparr>mem := mo p f (mem s)\<rparr>)"
  by (auto simp: upd_def mo_def split: option.splits)

lemma mo_noop: "(\<And>a n. p = Some a \<Longrightarrow> h a = Some n \<Longrightarrow> f n = n) \<Longrightarrow> mo p f h = h"
  by (auto simp: mo_def split: option.splits)

text \<open>update_nearby, when the list links around the node are already in place\<close>

lemma update_nearby_mo:
  fixes s :: "('k, 'v, 'z) heap_scheme"
  assumes n: "mem s a = Some n"
    and pl: "link (mem s) p a" and nl: "link (mem s) a nx"
    and fa: "\<And>f. father n = Some f \<Longrightarrow> f \<noteq> a \<and> mem s f \<noteq> None"
    and cl: "\<And>c. child n LEFT = Some c \<Longrightarrow> c \<noteq> a \<and> mem s c \<noteq> None"
    and cr: "\<And>c. child n RIGHT = Some c \<Longrightarrow> c \<noteq> a \<and> mem s c \<noteq> None"
  shows "update_nearby a s = Some (s\<lparr>mem :=
      mo (child n RIGHT) (\<lambda>x. x\<lparr>father := Some a, which := RIGHT\<rparr>)
     (mo (child n LEFT) (\<lambda>x. x\<lparr>father := Some a, which := LEFT\<rparr>)
     (mo (father n) (\<lambda>x. x\<lparr>child := (child x)(which n := Some a)\<rparr>) (mem s)))\<rparr>)"
proof -
  from pl n obtain pn where p: "mem s p = Some pn" "next pn = Some a" "prev n = Some p"
    by (auto simp: link_def split: option.splits)
  from nl n obtain nn where nx: "mem s nx = Some nn" "prev nn = Some a" "next n = Some nx"
    by (auto simp: link_def split: option.splits)
  have s1: "upd (prev n) (\<lambda>x. x\<lparr>next := Some a\<rparr>) s = Some s"
    using p by (simp add: upd_def fun_upd_idem)
  have s2: "upd (next n) (\<lambda>x. x\<lparr>prev := Some a\<rparr>) s = Some s"
    using nx by (simp add: upd_def fun_upd_idem)
  let ?h3 = "mo (father n) (\<lambda>x. x\<lparr>child := (child x)(which n := Some a)\<rparr>) (mem s)"
  have s3: "(case father n of None \<Rightarrow> Some s
            | Some f \<Rightarrow> upd (Some f) (\<lambda>x. x\<lparr>child := (child x)(which n := Some a)\<rparr>) s) = Some (s\<lparr>mem := ?h3\<rparr>)"
    using fa by (intro upd_opt_mo) auto
  have n3: "?h3 a = Some n" using fa n by (auto simp: mo_apply)
  let ?h4 = "mo (child n LEFT) (\<lambda>x. x\<lparr>father := Some a, which := LEFT\<rparr>) ?h3"
  have s4: "(case child n LEFT of None \<Rightarrow> Some (s\<lparr>mem := ?h3\<rparr>)
            | Some c \<Rightarrow> upd (Some c) (\<lambda>x. x\<lparr>father := Some a, which := LEFT\<rparr>) (s\<lparr>mem := ?h3\<rparr>)) = Some (s\<lparr>mem := ?h4\<rparr>)"
    using upd_opt_mo[of "child n LEFT" "s\<lparr>mem := ?h3\<rparr>" "\<lambda>x. x\<lparr>father := Some a, which := LEFT\<rparr>"] cl
    by (auto simp: mo_apply)
  have n4: "?h4 a = Some n" using cl n3 by (auto simp: mo_apply)
  let ?h5 = "mo (child n RIGHT) (\<lambda>x. x\<lparr>father := Some a, which := RIGHT\<rparr>) ?h4"
  have s5: "(case child n RIGHT of None \<Rightarrow> Some (s\<lparr>mem := ?h4\<rparr>)
            | Some c \<Rightarrow> upd (Some c) (\<lambda>x. x\<lparr>father := Some a, which := RIGHT\<rparr>) (s\<lparr>mem := ?h4\<rparr>)) = Some (s\<lparr>mem := ?h5\<rparr>)"
    using upd_opt_mo[of "child n RIGHT" "s\<lparr>mem := ?h4\<rparr>" "\<lambda>x. x\<lparr>father := Some a, which := RIGHT\<rparr>"] cr
    by (auto simp: mo_apply)
  show ?thesis
    unfolding update_nearby_def
    by (simp add: n s1 s2 s3 n3 s4 n4 s5)
qed

lemma link_cong:
  "(\<And>a. map_option prev (h' a) = map_option prev (h a)) \<Longrightarrow>
   (\<And>a. map_option next (h' a) = map_option next (h a)) \<Longrightarrow> link h' = link h"
proof (intro ext)
  fix a b
  assume p: "\<And>a. map_option prev (h' a) = map_option prev (h a)"
    and n: "\<And>a. map_option next (h' a) = map_option next (h a)"
  show "link h' a b = link h a b"
    using p[of b] n[of a] p[of a] by (auto simp: link_def split: option.splits)
qed

lemma rotate_mo:
  fixes s :: "('k, 'v) map_state"
  assumes x: "mem s x = Some xn" and cy: "child xn (\<not> w) = Some y" and y: "mem s y = Some yn"
    and xy: "x \<noteq> y"
    and lx: "link (mem s) px x" "link (mem s) x nx" and ly: "link (mem s) py y" "link (mem s) y ny"
    and fx: "\<And>f. father xn = Some f \<Longrightarrow> f \<noteq> x \<and> f \<noteq> y \<and> mem s f \<noteq> None"
    and ca: "\<And>c. child xn w = Some c \<Longrightarrow> c \<noteq> x \<and> c \<noteq> y \<and> mem s c \<noteq> None \<and> father xn \<noteq> Some c"
    and cb: "\<And>c. child yn w = Some c \<Longrightarrow> c \<noteq> x \<and> c \<noteq> y \<and> mem s c \<noteq> None \<and> father xn \<noteq> Some c \<and> child xn w \<noteq> Some c"
    and cc: "\<And>c. child yn (\<not> w) = Some c \<Longrightarrow> c \<noteq> x \<and> c \<noteq> y \<and> mem s c \<noteq> None \<and> father xn \<noteq> Some c
                \<and> child xn w \<noteq> Some c \<and> child yn w \<noteq> Some c"
  shows "\<exists>s'. rotate x w s = Some s' \<and> root s' = (if root s = Some x then Some y else root s)
      \<and> head s' = head s \<and> tail s' = tail s \<and> msize s' = msize s \<and> brk s' = brk s
      \<and> (\<forall>a. mem s' a =
          (if a = x then Some (xn\<lparr>child := (child xn)((\<not> w) := child yn w), father := Some y, which := w\<rparr>)
           else if a = y then Some (yn\<lparr>father := father xn, which := which xn, child := (child yn)(w := Some x)\<rparr>)
           else if father xn = Some a then map_option (\<lambda>n. n\<lparr>child := (child n)(which xn := Some y)\<rparr>) (mem s a)
           else if child yn w = Some a then map_option (\<lambda>n. n\<lparr>father := Some x, which := \<not> w\<rparr>) (mem s a)
           else if child xn w = Some a then map_option (\<lambda>n. n\<lparr>father := Some x, which := w\<rparr>) (mem s a)
           else if child yn (\<not> w) = Some a then map_option (\<lambda>n. n\<lparr>father := Some y, which := \<not> w\<rparr>) (mem s a)
           else mem s a))"
proof -
  let ?s0 = "s\<lparr>root := if root s = Some x then Some y else root s\<rparr>"
  have s0: "(if root s = Some x then s\<lparr>root := Some y\<rparr> else s) = ?s0" by simp
  let ?xn = "xn\<lparr>child := (child xn)((\<not> w) := child yn w), father := Some y, which := w\<rparr>"
  let ?yn = "yn\<lparr>father := father xn, which := which xn\<rparr>"
  let ?h1 = "(mem s)(y \<mapsto> ?yn, x \<mapsto> ?xn)"
  let ?s1 = "?s0\<lparr>mem := ?h1\<rparr>"
  have l1: "link ?h1 = link (mem s)"
    using xy by (intro link_cong) (auto simp: x y)
  have m0: "mem ?s0 = mem s" by simp
  have m1: "mem ?s1 x = Some ?xn" using xy by simp
  have lx1: "link (mem ?s1) px x" "link (mem ?s1) x nx" using lx l1 by simp_all
  have f1: "\<And>f. father ?xn = Some f \<Longrightarrow> f \<noteq> x \<and> mem ?s1 f \<noteq> None"
    using xy by simp
  have cl1: "\<And>c. child ?xn LEFT = Some c \<Longrightarrow> c \<noteq> x \<and> mem ?s1 c \<noteq> None"
    using ca cb xy by (cases w) (auto)
  have cr1: "\<And>c. child ?xn RIGHT = Some c \<Longrightarrow> c \<noteq> x \<and> mem ?s1 c \<noteq> None"
    using ca cb xy by (cases w) (auto)
  have un1: "update_nearby x ?s1 = Some (?s1\<lparr>mem :=
      mo (child ?xn RIGHT) (\<lambda>x'. x'\<lparr>father := Some x, which := RIGHT\<rparr>)
     (mo (child ?xn LEFT) (\<lambda>x'. x'\<lparr>father := Some x, which := LEFT\<rparr>)
     (mo (father ?xn) (\<lambda>x'. x'\<lparr>child := (child x')(which ?xn := Some x)\<rparr>) (mem ?s1)))\<rparr>)"
    by (rule update_nearby_mo[OF m1 lx1]) (use f1 cl1 cr1 in blast)+
  let ?h2 = "mo (child ?xn RIGHT) (\<lambda>x'. x'\<lparr>father := Some x, which := RIGHT\<rparr>)
     (mo (child ?xn LEFT) (\<lambda>x'. x'\<lparr>father := Some x, which := LEFT\<rparr>)
     (mo (father ?xn) (\<lambda>x'. x'\<lparr>child := (child x')(which ?xn := Some x)\<rparr>) (mem ?s1)))"
  let ?s2 = "?s1\<lparr>mem := ?h2\<rparr>"
  let ?yn2 = "yn\<lparr>father := father xn, which := which xn, child := (child yn)(w := Some x)\<rparr>"
  have y2: "?h2 y = Some ?yn2"
    using xy ca cb by (cases w) (auto simp: mo_apply)
  have l2: "link ?h2 = link (mem s)"
    using xy by (intro link_cong) (auto simp: x y mo_apply option.map_comp comp_def split: if_splits)
  have dom2: "\<And>a. ?h2 a \<noteq> None \<longleftrightarrow> mem s a \<noteq> None"
    by (auto simp: mo_apply x y split: if_splits)
  have ly2: "link ?h2 py y" "link ?h2 y ny" using ly by (simp_all only: l2)
  have f2: "\<And>f. father ?yn2 = Some f \<Longrightarrow> f \<noteq> y \<and> mem ?s2 f \<noteq> None"
    using fx dom2 by simp
  have cl2: "\<And>c. child ?yn2 LEFT = Some c \<Longrightarrow> c \<noteq> y \<and> mem ?s2 c \<noteq> None"
    using cc xy x dom2 by (cases w) (auto)
  have cr2: "\<And>c. child ?yn2 RIGHT = Some c \<Longrightarrow> c \<noteq> y \<and> mem ?s2 c \<noteq> None"
    using cc xy x dom2 by (cases w) (auto)
  have m2: "mem ?s2 y = Some ?yn2" using y2 by simp
  have ly2': "link (mem ?s2) py y" "link (mem ?s2) y ny" using ly2 by simp_all
  have un2: "update_nearby y ?s2 = Some (?s2\<lparr>mem :=
      mo (child ?yn2 RIGHT) (\<lambda>x'. x'\<lparr>father := Some y, which := RIGHT\<rparr>)
     (mo (child ?yn2 LEFT) (\<lambda>x'. x'\<lparr>father := Some y, which := LEFT\<rparr>)
     (mo (father ?yn2) (\<lambda>x'. x'\<lparr>child := (child x')(which ?yn2 := Some y)\<rparr>) (mem ?s2)))\<rparr>)"
    by (rule update_nearby_mo[OF m2 ly2']) (use f2 cl2 cr2 in blast)+
  have pre: "rotate x w s = update_nearby x ?s1 \<bind> update_nearby y"
    unfolding rotate_def s0 using x y cy xy
    by (simp add: rd_def upd_def Let_def fun_upd_twist)
  have run: "rotate x w s = update_nearby y ?s2"
    unfolding pre un1 by simp
  let ?s3 = "?s2\<lparr>mem :=
      mo (child ?yn2 RIGHT) (\<lambda>x'. x'\<lparr>father := Some y, which := RIGHT\<rparr>)
     (mo (child ?yn2 LEFT) (\<lambda>x'. x'\<lparr>father := Some y, which := LEFT\<rparr>)
     (mo (father ?yn2) (\<lambda>x'. x'\<lparr>child := (child x')(which ?yn2 := Some y)\<rparr>) (mem ?s2)))\<rparr>"
  have d1: "father xn \<noteq> Some x" "father xn \<noteq> Some y" using fx by auto
  have d2: "child xn w \<noteq> Some x" "child xn w \<noteq> Some y" "child xn w = None \<or> child xn w \<noteq> father xn"
    using ca by (cases "child xn w"; auto)+
  have d3: "child yn w \<noteq> Some x" "child yn w \<noteq> Some y" "child yn w = None \<or> child yn w \<noteq> father xn"
    "child yn w = None \<or> child yn w \<noteq> child xn w"
    using cb by (cases "child yn w"; auto)+
  have d4: "child yn (\<not> w) \<noteq> Some x" "child yn (\<not> w) \<noteq> Some y" "child yn (\<not> w) = None \<or> child yn (\<not> w) \<noteq> father xn"
    "child yn (\<not> w) = None \<or> child yn (\<not> w) \<noteq> child xn w" "child yn (\<not> w) = None \<or> child yn (\<not> w) \<noteq> child yn w"
    using cc by (cases "child yn (\<not> w)"; auto)+
  define s3 where "s3 = ?s3"
  have pw_x: "mem s3 x = Some (xn\<lparr>child := (child xn)((\<not> w) := child yn w), father := Some y, which := w\<rparr>)"
    unfolding s3_def using xy d1 d2 d3 d4 x y by (cases w) (simp_all add: mo_apply)
  have pw_y: "mem s3 y = Some (yn\<lparr>father := father xn, which := which xn, child := (child yn)(w := Some x)\<rparr>)"
    unfolding s3_def using xy d1 d2 d3 d4 x y by (cases w) (simp_all add: mo_apply)
  have pw_f: "father xn = Some a \<Longrightarrow> mem s3 a = map_option (\<lambda>n. n\<lparr>child := (child n)(which xn := Some y)\<rparr>) (mem s a)" for a
    unfolding s3_def using xy d1 d2 d3 d4 x y by (cases w) (auto simp: mo_apply)
  have pw_b: "child yn w = Some a \<Longrightarrow> mem s3 a = map_option (\<lambda>n. n\<lparr>father := Some x, which := \<not> w\<rparr>) (mem s a)" for a
    unfolding s3_def using xy d1 d2 d3 d4 x y by (cases w) (auto simp: mo_apply)
  have pw_a: "child xn w = Some a \<Longrightarrow> mem s3 a = map_option (\<lambda>n. n\<lparr>father := Some x, which := w\<rparr>) (mem s a)" for a
    unfolding s3_def using xy d1 d2 d3 d4 x y by (cases w) (auto simp: mo_apply)
  have pw_c: "child yn (\<not> w) = Some a \<Longrightarrow> mem s3 a = map_option (\<lambda>n. n\<lparr>father := Some y, which := \<not> w\<rparr>) (mem s a)" for a
    unfolding s3_def using xy d1 d2 d3 d4 x y by (cases w) (auto simp: mo_apply)
  have pw_o: "a \<noteq> x \<Longrightarrow> a \<noteq> y \<Longrightarrow> father xn \<noteq> Some a \<Longrightarrow> child yn w \<noteq> Some a \<Longrightarrow> child xn w \<noteq> Some a
      \<Longrightarrow> child yn (\<not> w) \<noteq> Some a \<Longrightarrow> mem s3 a = mem s a" for a
    unfolding s3_def using xy d1 d2 d3 d4 x y by (cases w) (auto simp: mo_apply)
  have r3: "root s3 = (if root s = Some x then Some y else root s)" "head s3 = head s" "tail s3 = tail s"
    "msize s3 = msize s" "brk s3 = brk s" unfolding s3_def by simp_all
  have run3: "rotate x w s = Some s3" unfolding s3_def by (simp only: run un2)
  show ?thesis
  proof (intro exI[of _ s3] conjI allI)
    show "mem s3 a = (if a = x then Some (xn\<lparr>child := (child xn)((\<not> w) := child yn w), father := Some y, which := w\<rparr>)
           else if a = y then Some (yn\<lparr>father := father xn, which := which xn, child := (child yn)(w := Some x)\<rparr>)
           else if father xn = Some a then map_option (\<lambda>n. n\<lparr>child := (child n)(which xn := Some y)\<rparr>) (mem s a)
           else if child yn w = Some a then map_option (\<lambda>n. n\<lparr>father := Some x, which := \<not> w\<rparr>) (mem s a)
           else if child xn w = Some a then map_option (\<lambda>n. n\<lparr>father := Some x, which := w\<rparr>) (mem s a)
           else if child yn (\<not> w) = Some a then map_option (\<lambda>n. n\<lparr>father := Some y, which := \<not> w\<rparr>) (mem s a)
           else mem s a)" for a
      using pw_x pw_y pw_f[of a] pw_b[of a] pw_a[of a] pw_c[of a] pw_o[of a]
      by (simp only: split: if_split) blast
  qed (rule run3 r3)+
qed

lemma rootp_in: "rootp t = Some a \<Longrightarrow> a \<in> set (inorder t)"
  by (cases t) auto

lemma top_in: "top fs = Some p \<Longrightarrow> p \<in> set (pre fs) \<union> set (post fs)"
  by (cases fs rule: top.cases) auto

lemma tr_alloc: "tr h f w t \<Longrightarrow> a \<in> set (inorder t) \<Longrightarrow> h a \<noteq> None"
  by (induction t arbitrary: f w) (auto split: option.splits)

lemma tr_rehang:
  assumes "tr h f w t"
    and "\<And>a. a \<in> set (inorder t) \<Longrightarrow> rootp t \<noteq> Some a \<Longrightarrow> h' a = h a"
    and "\<And>a. rootp t = Some a \<Longrightarrow> h' a = map_option (\<lambda>n. n\<lparr>father := f', which := w'\<rparr>) (h a)"
    and "distinct (inorder t)"
  shows "tr h' f' w' t"
proof (cases t)
  case Leaf
  then show ?thesis by simp
next
  case (Node l a c r)
  have "tr h' (Some a) LEFT l = tr h (Some a) LEFT l"
    using assms(2,4) Node by (intro tr_frame) auto
  moreover have "tr h' (Some a) RIGHT r = tr h (Some a) RIGHT r"
    using assms(2,4) Node by (intro tr_frame) auto
  ultimately show ?thesis
    using assms(1,3) Node by (auto split: option.splits)
qed

lemma trc_frame: "(\<And>a. a \<in> set (pre fs) \<union> set (post fs) \<Longrightarrow> h' a = h a) \<Longrightarrow> trc h' fs q = trc h fs q"
proof (induction fs arbitrary: q)
  case Nil
  then show ?case by simp
next
  case (Cons fr fs)
  obtain w p c sib where fr: "fr = Fr w p c sib" by (cases fr)
  have 1: "h' p = h p" using Cons.prems[of p] by (auto simp: fr)
  have 2: "tr h' (Some p) (\<not> w) sib = tr h (Some p) (\<not> w) sib"
    using Cons.prems by (intro tr_frame) (auto simp: fr)
  have 3: "trc h' fs (Some p) = trc h fs (Some p)"
    using Cons.prems by (intro Cons.IH) (auto simp: fr split: if_splits)
  show ?case by (simp add: fr 1 2 3 cong: option.case_cong)
qed

text \<open>Redirecting the pointer to the hole\<close>

lemma trc_redirect:
  assumes "trc h fs q"
    and "distinct (pre fs @ post fs)"
    and "\<And>a. a \<in> set (pre fs) \<union> set (post fs) \<Longrightarrow> top fs \<noteq> Some a \<Longrightarrow> h' a = h a"
    and "\<And>a. top fs = Some a \<Longrightarrow> h' a = map_option (\<lambda>n. n\<lparr>child := (child n)(side fs := q')\<rparr>) (h a)"
  shows "trc h' fs q'"
proof (cases fs)
  case Nil
  then show ?thesis by simp
next
  case (Cons fr fs')
  obtain w p c sib where fr: "fr = Fr w p c sib" by (cases fr)
  have 2: "tr h' (Some p) (\<not> w) sib = tr h (Some p) (\<not> w) sib"
    using assms(2,3) by (intro tr_frame) (auto simp: fr Cons split: if_splits)
  have 3: "trc h' fs' (Some p) = trc h fs' (Some p)"
    using assms(2,3) by (intro trc_frame) (auto simp: fr Cons split: if_splits)
  show ?thesis using assms(1,4) by (auto simp: fr Cons 2 3 split: option.splits)
qed

lemma successively_neighbours:
  "successively P xs \<Longrightarrow> a \<in> set xs \<Longrightarrow> a \<noteq> hd xs \<Longrightarrow> \<exists>p. P p a"
  "successively P xs \<Longrightarrow> a \<in> set xs \<Longrightarrow> a \<noteq> last xs \<Longrightarrow> \<exists>n. P a n"
proof (induction P xs rule: successively.induct)
  case (3 P x y xs)
  { case 1 then show ?case using 3 by (cases "a = y") auto }
  { case 2 then show ?case using 3 by (cases "a = x") auto }
qed auto

lemma shape_links:
  assumes "shape s t" and "a \<in> set (inorder t)"
  shows "\<exists>p n. link (mem s) p a \<and> link (mem s) a n"
proof -
  let ?xs = "head s # inorder t @ [tail s]"
  from assms have "successively (link (mem s)) ?xs" "a \<in> set ?xs" "a \<noteq> hd ?xs" "a \<noteq> last ?xs"
    by (auto simp: shape_def)
  from successively_neighbours[OF this(1,2)] this(3,4) show ?thesis by blast
qed

lemma same_payload_refl [simp]: "same_payload s s" by (simp add: same_payload_def)

lemma same_payload_trans: "same_payload s s' \<Longrightarrow> same_payload s' s'' \<Longrightarrow> same_payload s s''"
  by (simp add: same_payload_def)

lemma shape_rootp: "shape s t \<Longrightarrow> root s = rootp t" by (simp add: shape_def)

lemma distinct_plug:
  "distinct (inorder (plug fs t)) \<Longrightarrow> distinct (inorder t) \<and> distinct (pre fs @ post fs)
     \<and> set (inorder t) \<inter> (set (pre fs) \<union> set (post fs)) = {}"
  by (auto simp: inorder_plug)

lemma rootp_plug_ctx:
  "fs \<noteq> [] \<Longrightarrow> \<exists>p. p \<in> set (pre fs) \<union> set (post fs) \<and> (\<forall>t. rootp (plug fs t) = Some p)"
proof (induction fs rule: rev_induct)
  case Nil
  then show ?case by simp
next
  case (snoc fr fs)
  obtain w p c sib where fr: "fr = Fr w p c sib" by (cases fr)
  have pp: "pre (fs @ [Fr w p c sib]) = (if w then inorder sib @ [p] else []) @ pre fs" for fs
    by (induction fs rule: pre.induct) auto
  have po: "post (fs @ [Fr w p c sib]) = post fs @ (if w then [] else p # inorder sib)" for fs
    by (induction fs rule: post.induct) auto
  show ?case by (auto simp: rootp_plug fr pp po)
qed

lemma shape_intro:
  assumes "tr (mem s') None LEFT t'" and "root s' = rootp t'" and "inorder t' = inorder t"
    and "shape s t" and "head s' = head s" "tail s' = tail s" "brk s' = brk s"
    and "\<And>a. map_option prev (mem s' a) = map_option prev (mem s a)"
    and "\<And>a. map_option next (mem s' a) = map_option next (mem s a)"
  shows "shape s' t'"
proof -
  have "link (mem s') = link (mem s)" using assms(8,9) by (rule link_cong)
  moreover have "mem s' a \<noteq> None \<longleftrightarrow> mem s a \<noteq> None" for a
    using assms(8)[of a] by (cases "mem s a"; cases "mem s' a"; simp)
  ultimately show ?thesis using assms(1-7) by (simp add: shape_def)
qed

lemma rotate_shape:
  fixes s :: "('k, 'v) map_state"
  assumes sh: "shape s (plug fs (nd w A x cx (nd w B y cy C)))"
  shows "\<exists>s'. rotate x w s = Some s' \<and> shape s' (plug fs (nd w (nd w A x cx B) y cy C)) \<and> same_payload s s'"
proof -
  let ?Y = "nd w B y cy C" let ?t = "nd w A x cx ?Y" let ?t' = "nd w (nd w A x cx B) y cy C"
  let ?h = "mem s"
  have io: "inorder ?t' = inorder ?t" by (cases w) auto
  from sh have trT: "tr ?h None LEFT (plug fs ?t)" and rt: "root s = rootp (plug fs ?t)"
    and dist: "distinct (head s # inorder (plug fs ?t) @ [tail s])"
    and succ: "successively (link ?h) (head s # inorder (plug fs ?t) @ [tail s])"
    and bound: "\<forall>a. ?h a \<noteq> None \<longrightarrow> a < brk s"
    by (auto simp: shape_def)
  from dist have dT: "distinct (inorder (plug fs ?t))" by auto
  from distinct_plug[OF dT] have dt: "distinct (inorder ?t)" and dc: "distinct (pre fs @ post fs)"
    and dj: "set (inorder ?t) \<inter> (set (pre fs) \<union> set (post fs)) = {}" by auto
  from trT have c0: "trc ?h fs (Some x)" and t0: "tr ?h (top fs) (side fs) ?t"
    by (auto simp: tr_plug)
  from t0 obtain xn where xn: "?h x = Some xn" "father xn = top fs" "top fs \<noteq> None \<longrightarrow> which xn = side fs"
    "color xn = cx" "child xn w = rootp A" "child xn (\<not> w) = Some y" "val xn \<noteq> None"
    and tA: "tr ?h (Some x) w A" and tY: "tr ?h (Some x) (\<not> w) ?Y"
    by (auto simp: tr_nd split: option.splits)
  from tY obtain yn where yn: "?h y = Some yn" "father yn = Some x" "which yn = (\<not> w)"
    "color yn = cy" "child yn w = rootp B" "child yn (\<not> w) = rootp C" "val yn \<noteq> None"
    and tB: "tr ?h (Some y) w B" and tC: "tr ?h (Some y) (\<not> w) C"
    by (auto simp: tr_nd split: option.splits)
  have sets: "x \<noteq> y" "x \<notin> set (inorder A)" "x \<notin> set (inorder B)" "x \<notin> set (inorder C)"
    "y \<notin> set (inorder A)" "y \<notin> set (inorder B)" "y \<notin> set (inorder C)"
    "set (inorder A) \<inter> set (inorder B) = {}" "set (inorder A) \<inter> set (inorder C) = {}"
    "set (inorder B) \<inter> set (inorder C) = {}" "distinct (inorder A)" "distinct (inorder B)" "distinct (inorder C)"
    using dt by (cases w; auto)+
  have inT: "x \<in> set (inorder (plug fs ?t))" "y \<in> set (inorder (plug fs ?t))"
    by (cases w; auto simp: inorder_plug)+
  from shape_links[OF sh inT(1)] obtain px nx where lx: "link ?h px x" "link ?h x nx" by blast
  from shape_links[OF sh inT(2)] obtain py ny where ly: "link ?h py y" "link ?h y ny" by blast
  have pnot: "\<And>p. top fs = Some p \<Longrightarrow> p \<notin> set (inorder ?t) \<and> ?h p \<noteq> None"
    using top_in dj c0 by (cases fs rule: top.cases) (fastforce split: option.splits)+
  have pnot': "\<And>p. top fs = Some p \<Longrightarrow> p \<noteq> x \<and> p \<noteq> y \<and> p \<notin> set (inorder A) \<and> p \<notin> set (inorder B) \<and> p \<notin> set (inorder C)"
    using pnot by (cases w) auto
  have fx: "\<And>f. father xn = Some f \<Longrightarrow> f \<noteq> x \<and> f \<noteq> y \<and> mem s f \<noteq> None"
    using pnot pnot' xn(2) by auto
  have ca: "\<And>c. child xn w = Some c \<Longrightarrow> c \<noteq> x \<and> c \<noteq> y \<and> mem s c \<noteq> None \<and> father xn \<noteq> Some c"
    using xn(2,5) sets pnot' rootp_in[of A] tr_alloc[OF tA] by auto
  have cb: "\<And>c. child yn w = Some c \<Longrightarrow> c \<noteq> x \<and> c \<noteq> y \<and> mem s c \<noteq> None \<and> father xn \<noteq> Some c \<and> child xn w \<noteq> Some c"
    using xn(2,5) yn(5) sets pnot' rootp_in[of B] rootp_in[of A] tr_alloc[OF tB] by auto
  have cc: "\<And>c. child yn (\<not> w) = Some c \<Longrightarrow> c \<noteq> x \<and> c \<noteq> y \<and> mem s c \<noteq> None \<and> father xn \<noteq> Some c
                \<and> child xn w \<noteq> Some c \<and> child yn w \<noteq> Some c"
    using xn(2,5) yn(5,6) sets pnot' rootp_in[of C] rootp_in[of B] rootp_in[of A] tr_alloc[OF tC] by auto
  from rotate_mo[OF xn(1) xn(6) yn(1) sets(1) lx ly fx ca cb cc]
  obtain s' where run: "rotate x w s = Some s'"
    and r': "root s' = (if root s = Some x then Some y else root s)"
    and same: "head s' = head s" "tail s' = tail s" "msize s' = msize s" "brk s' = brk s"
    and pw: "\<And>a. mem s' a =
          (if a = x then Some (xn\<lparr>child := (child xn)((\<not> w) := child yn w), father := Some y, which := w\<rparr>)
           else if a = y then Some (yn\<lparr>father := father xn, which := which xn, child := (child yn)(w := Some x)\<rparr>)
           else if father xn = Some a then map_option (\<lambda>n. n\<lparr>child := (child n)(which xn := Some y)\<rparr>) (mem s a)
           else if child yn w = Some a then map_option (\<lambda>n. n\<lparr>father := Some x, which := \<not> w\<rparr>) (mem s a)
           else if child xn w = Some a then map_option (\<lambda>n. n\<lparr>father := Some x, which := w\<rparr>) (mem s a)
           else if child yn (\<not> w) = Some a then map_option (\<lambda>n. n\<lparr>father := Some y, which := \<not> w\<rparr>) (mem s a)
           else mem s a)"
    by blast
  let ?h' = "mem s'"
  have hx: "?h' x = Some (xn\<lparr>child := (child xn)((\<not> w) := child yn w), father := Some y, which := w\<rparr>)"
    by (simp add: pw)
  have hy: "?h' y = Some (yn\<lparr>father := father xn, which := which xn, child := (child yn)(w := Some x)\<rparr>)"
    using sets(1) by (simp add: pw)
  have hp: "\<And>p. top fs = Some p \<Longrightarrow> ?h' p = map_option (\<lambda>n. n\<lparr>child := (child n)(side fs := Some y)\<rparr>) (?h p)"
    using pnot' xn(2,3) by (simp add: pw)
  have hB: "\<And>a. rootp B = Some a \<Longrightarrow> ?h' a = map_option (\<lambda>n. n\<lparr>father := Some x, which := \<not> w\<rparr>) (?h a)"
    using cb yn(5) by (simp add: pw)
  have hA: "\<And>a. rootp A = Some a \<Longrightarrow> ?h' a = map_option (\<lambda>n. n\<lparr>father := Some x, which := w\<rparr>) (?h a)"
    using ca cb xn(5) yn(5) by (auto simp add: pw)
  have hC: "\<And>a. rootp C = Some a \<Longrightarrow> ?h' a = map_option (\<lambda>n. n\<lparr>father := Some y, which := \<not> w\<rparr>) (?h a)"
    using cc xn(5) yn(5,6) by (auto simp add: pw)
  have ho: "\<And>a. a \<noteq> x \<Longrightarrow> a \<noteq> y \<Longrightarrow> top fs \<noteq> Some a \<Longrightarrow> rootp A \<noteq> Some a \<Longrightarrow> rootp B \<noteq> Some a
     \<Longrightarrow> rootp C \<noteq> Some a \<Longrightarrow> ?h' a = ?h a"
    using xn(2,5) yn(5,6) by (simp add: pw)
  have tA': "tr ?h' (Some x) w A"
    using sets pnot' rootp_in[of B] rootp_in[of C]
    by (intro tr_rehang[OF tA _ hA]) (auto intro!: ho)
  have tB': "tr ?h' (Some x) (\<not> w) B"
    using sets pnot' rootp_in[of A] rootp_in[of C]
    by (intro tr_rehang[OF tB _ hB]) (auto intro!: ho)
  have tC': "tr ?h' (Some y) (\<not> w) C"
    using sets pnot' rootp_in[of A] rootp_in[of B]
    by (intro tr_rehang[OF tC _ hC]) (auto intro!: ho)
  have t': "tr ?h' (top fs) (side fs) ?t'"
    using xn yn tA' tB' tC' by (simp add: tr_nd hx hy)
  have c': "trc ?h' fs (Some y)"
  proof (rule trc_redirect[OF c0 dc _ hp])
    fix a assume a: "a \<in> set (pre fs) \<union> set (post fs)" "top fs \<noteq> Some a"
    with dj have "a \<notin> set (inorder ?t)" by auto
    then have "a \<noteq> x" "a \<noteq> y" "a \<notin> set (inorder A)" "a \<notin> set (inorder B)" "a \<notin> set (inorder C)"
      by (cases w; auto)+
    then show "?h' a = ?h a" using a(2) rootp_in[of A a] rootp_in[of B a] rootp_in[of C a]
      by (intro ho) auto
  qed
  have trT': "tr ?h' None LEFT (plug fs ?t')"
    using c' t' by (simp add: tr_plug)
  have rt': "root s' = rootp (plug fs ?t')"
  proof (cases "fs = []")
    case True
    then show ?thesis using rt r' by simp
  next
    case False
    from rootp_plug_ctx[OF False] obtain p where p: "p \<in> set (pre fs) \<union> set (post fs)"
      "\<And>t. rootp (plug fs t) = Some p" by blast
    with dj have "p \<noteq> x" by (cases w) auto
    then show ?thesis using rt r' p(2) by simp
  qed
  have pv: "map_option prev (?h' a) = map_option prev (?h a)" for a
    using xn(1) yn(1) by (simp add: pw option.map_comp comp_def)
  have nx: "map_option next (?h' a) = map_option next (?h a)" for a
    using xn(1) yn(1) by (simp add: pw option.map_comp comp_def)
  have vl: "map_option val (?h' a) = map_option val (?h a)" for a
    using xn(1) yn(1) by (simp add: pw option.map_comp comp_def)
  have "inorder (plug fs ?t') = inorder (plug fs ?t)" using io by (simp add: inorder_plug)
  from shape_intro[OF trT' rt' this sh same(1,2,4) pv nx]
  have "shape s' (plug fs ?t')" .
  moreover have "same_payload s s'" using same vl by (simp add: same_payload_def)
  ultimately show ?thesis using run by blast
qed

lemma color_neq [simp]: "(c \<noteq> RED) = (c = BLACK)" "(c \<noteq> BLACK) = (c = RED)"
  "(RED \<noteq> c) = (c = BLACK)" "(BLACK \<noteq> c) = (c = RED)"
  by (cases c; simp)+

lemma invc_nd [simp]: "invc (nd w x a c y) = ((c = RED \<longrightarrow> col x = BLACK \<and> col y = BLACK) \<and> invc x \<and> invc y)"
  by (cases w) auto

lemma invh_nd [simp]: "invh (nd w x a c y) = (bheight x = bheight y \<and> invh x \<and> invh y)"
  by (cases w) auto

lemma bheight_nd: "bheight x = bheight y \<Longrightarrow> bheight (nd w x a c y) = (if c = BLACK then Suc (bheight x) else bheight x)"
  by (cases w) auto

lemma inorder_nd: "inorder (nd w x a c y) = (if w then inorder y @ a # inorder x else inorder x @ a # inorder y)"
  by (cases w) auto

lemma invc_plug: "invc (plug fs t) = (invc t \<and> invc_ctx fs \<and> (pcol fs = RED \<longrightarrow> col t = BLACK))"
  by (induction fs t rule: plug.induct) auto

lemma invh_plug: "invh (plug fs t) = (invh t \<and> invh_ctx fs (bheight t))"
  by (induction fs t rule: plug.induct) (auto simp: bheight_nd)

lemma col_plug: "col (plug fs t) = rcol fs (col t)"
  by (induction fs t rule: plug.induct) auto

lemma Node_as_nd: "Node l a c r = nd v (if v then r else l) a c (if v then l else r)"
  by simp

lemma shape_focus:
  assumes "shape s (plug fs (nd w X a c Y))"
  shows "\<exists>n. mem s a = Some n \<and> father n = top fs \<and> (fs \<noteq> [] \<longrightarrow> which n = side fs) \<and> color n = c
     \<and> child n w = rootp X \<and> child n (\<not> w) = rootp Y \<and> val n \<noteq> None"
  using assms by (auto simp: shape_def tr_plug tr_nd split: option.splits)

lemma shape_focus_Node:
  assumes "shape s (plug fs (Node l a c r))"
  shows "\<exists>n. mem s a = Some n \<and> father n = top fs \<and> (fs \<noteq> [] \<longrightarrow> which n = side fs) \<and> color n = c
     \<and> child n LEFT = rootp l \<and> child n RIGHT = rootp r \<and> val n \<noteq> None"
  using shape_focus[of s fs False l a c r] assms by simp

lemma recolor_shape:
  fixes s :: "('k, 'v) map_state"
  assumes sh: "shape s (plug fs (nd w X a c Y))"
  shows "\<exists>s'. upd (Some a) (\<lambda>n. n\<lparr>color := c'\<rparr>) s = Some s' \<and> shape s' (plug fs (nd w X a c' Y)) \<and> same_payload s s'"
proof -
  let ?t = "nd w X a c Y" let ?t' = "nd w X a c' Y" let ?h = "mem s"
  from shape_focus[OF sh] obtain n where n: "?h a = Some n" "father n = top fs" "fs \<noteq> [] \<longrightarrow> which n = side fs"
    "color n = c" "child n w = rootp X" "child n (\<not> w) = rootp Y" "val n \<noteq> None" by blast
  let ?s' = "s\<lparr>mem := ?h(a \<mapsto> n\<lparr>color := c'\<rparr>)\<rparr>" let ?h' = "mem ?s'"
  have run: "upd (Some a) (\<lambda>n. n\<lparr>color := c'\<rparr>) s = Some ?s'" using n(1) by (simp add: upd_def)
  from sh have trT: "tr ?h None LEFT (plug fs ?t)" and rt: "root s = rootp (plug fs ?t)"
    and dist: "distinct (head s # inorder (plug fs ?t) @ [tail s])"
    by (auto simp: shape_def)
  from dist have dT: "distinct (inorder (plug fs ?t))" by auto
  from distinct_plug[OF dT] have dt: "distinct (inorder ?t)" and dc: "distinct (pre fs @ post fs)"
    and dj: "set (inorder ?t) \<inter> (set (pre fs) \<union> set (post fs)) = {}" by auto
  from trT have c0: "trc ?h fs (Some a)" and t0: "tr ?h (top fs) (side fs) ?t"
    by (auto simp: tr_plug)
  have nin: "a \<notin> set (inorder X)" "a \<notin> set (inorder Y)" "a \<notin> set (pre fs) \<union> set (post fs)"
    using dt dj by (cases w; auto)+
  have c': "trc ?h' fs (Some a)"
    using c0 nin by (subst trc_frame[of fs _ ?h]) auto
  have "tr ?h' (Some a) w X = tr ?h (Some a) w X" using nin by (intro tr_frame) auto
  moreover have "tr ?h' (Some a) (\<not> w) Y = tr ?h (Some a) (\<not> w) Y" using nin by (intro tr_frame) auto
  ultimately have t': "tr ?h' (top fs) (side fs) ?t'" using t0 n by (simp add: tr_nd)
  have trT': "tr ?h' None LEFT (plug fs ?t')" using c' t' by (simp add: tr_plug)
  have rt': "root ?s' = rootp (plug fs ?t')" using rt by (simp add: rootp_plug)
  have io: "inorder (plug fs ?t') = inorder (plug fs ?t)" by (simp add: inorder_plug inorder_nd)
  have "shape ?s' (plug fs ?t')"
    by (rule shape_intro[OF trT' rt' io sh]) (use n(1) in auto)
  moreover have "same_payload s ?s'" using n(1) by (simp add: same_payload_def)
  ultimately show ?thesis using run by blast
qed

lemma null_or_black_shape:
  assumes "shape s (plug fs t)"
  shows "null_or_black (rootp t) s = Some (col t = BLACK)"
proof (cases t)
  case Leaf
  then show ?thesis by (simp add: null_or_black_def)
next
  case (Node l a c r)
  with shape_focus_Node[of s fs l a c r] assms show ?thesis
    by (auto simp: null_or_black_def)
qed

lemma rcol_nonempty: "fs \<noteq> [] \<Longrightarrow> rcol fs c = rcol fs c'"
  by (cases fs rule: pcol.cases) auto

lemma plug_flip: "plug (Fr w p c sib # fs) t = plug (Fr (\<not> w) p c t # fs) sib"
  by (simp add: nd_flip[of w t])

lemma insert_fix_root:
  "mem s a = Some tn \<Longrightarrow> father tn = None \<Longrightarrow> insert_fix a s = upd (Some a) (\<lambda>n. n\<lparr>color := BLACK\<rparr>) s"
  by (subst insert_fix.simps) simp

lemma insert_fix_black:
  "mem s a = Some tn \<Longrightarrow> father tn = Some f \<Longrightarrow> mem s f = Some fn \<Longrightarrow> color fn = BLACK \<Longrightarrow> insert_fix a s = Some s"
  by (subst insert_fix.simps) simp

lemma insert_fix_red_uncle:
  "mem s a = Some tn \<Longrightarrow> father tn = Some f \<Longrightarrow> mem s f = Some fn \<Longrightarrow> color fn = RED \<Longrightarrow>
   father fn = Some g \<Longrightarrow> mem s g = Some gn \<Longrightarrow> null_or_black (child gn (\<not> which fn)) s = Some False \<Longrightarrow>
   upd (child gn (\<not> which fn)) (\<lambda>n. n\<lparr>color := BLACK\<rparr>) s = Some s1 \<Longrightarrow>
   upd (Some f) (\<lambda>n. n\<lparr>color := BLACK\<rparr>) s1 = Some s2 \<Longrightarrow>
   upd (Some g) (\<lambda>n. n\<lparr>color := RED\<rparr>) s2 = Some s3 \<Longrightarrow>
   insert_fix a s = insert_fix g s3"
  by (subst insert_fix.simps) (simp add: rd_def)

lemma insert_fix_zigzig:
  "mem s a = Some tn \<Longrightarrow> father tn = Some f \<Longrightarrow> mem s f = Some fn \<Longrightarrow> color fn = RED \<Longrightarrow>
   father fn = Some g \<Longrightarrow> mem s g = Some gn \<Longrightarrow> null_or_black (child gn (\<not> which fn)) s = Some True \<Longrightarrow>
   which tn = which fn \<Longrightarrow>
   upd (Some f) (\<lambda>n. n\<lparr>color := BLACK\<rparr>) s = Some s1 \<Longrightarrow>
   upd (Some g) (\<lambda>n. n\<lparr>color := RED\<rparr>) s1 = Some s2 \<Longrightarrow>
   mem s2 a = Some tn2 \<Longrightarrow>
   insert_fix a s = rotate g (\<not> which tn2) s2"
  by (subst insert_fix.simps) (simp add: rd_def)

lemma insert_fix_zigzag:
  "mem s a = Some tn \<Longrightarrow> father tn = Some f \<Longrightarrow> mem s f = Some fn \<Longrightarrow> color fn = RED \<Longrightarrow>
   father fn = Some g \<Longrightarrow> mem s g = Some gn \<Longrightarrow> null_or_black (child gn (\<not> which fn)) s = Some True \<Longrightarrow>
   which tn \<noteq> which fn \<Longrightarrow>
   upd (Some a) (\<lambda>n. n\<lparr>color := BLACK\<rparr>) s = Some s1 \<Longrightarrow>
   upd (Some g) (\<lambda>n. n\<lparr>color := RED\<rparr>) s1 = Some s2 \<Longrightarrow>
   mem s2 a = Some tn2 \<Longrightarrow>
   rotate f (\<not> which tn2) s2 = Some s3 \<Longrightarrow>
   mem s3 a = Some tn3 \<Longrightarrow>
   insert_fix a s = rotate g (\<not> which tn3) s3"
  by (subst insert_fix.simps) (simp add: rd_def)

lemma insert_fix_correct:
  fixes s :: "('k, 'v) map_state"
  assumes "shape s (plug fs (Node l a RED r))"
    and "invc l" "invc r" "col l = BLACK" "col r = BLACK" "invh l" "invh r" "bheight l = bheight r"
    and "invc_ctx fs" "invh_ctx fs (bheight l)" "rcol fs BLACK = BLACK"
  shows "\<exists>s' T'. insert_fix a s = Some s' \<and> shape s' T' \<and> inorder T' = inorder (plug fs (Node l a RED r))
      \<and> rbt T' \<and> same_payload s s'"
  using assms
proof (induction "length fs" arbitrary: fs l a r s rule: less_induct)
  case less
  let ?t = "Node l a RED r"
  note sh = less.prems(1)
  from shape_focus_Node[OF sh] obtain tn where tn: "mem s a = Some tn" "father tn = top fs"
    "fs \<noteq> [] \<longrightarrow> which tn = side fs" by blast
  show ?case
  proof (cases fs)
    case Nil
    from recolor_shape[of s "[]" False l a RED r BLACK] sh Nil
    obtain s' where s': "upd (Some a) (\<lambda>n. n\<lparr>color := BLACK\<rparr>) s = Some s'" "shape s' (Node l a BLACK r)"
      "same_payload s s'" by auto
    have "insert_fix a s = Some s'" using insert_fix_root[OF tn(1)] tn(2) Nil s'(1) by simp
    moreover have "rbt (Node l a BLACK r)" using less.prems by (simp add: rbt_def)
    ultimately show ?thesis using s' Nil by (intro exI[of _ s'] exI[of _ "Node l a BLACK r"]) simp
  next
    case (Cons fr fs')
    obtain wf f cf sib where fr: "fr = Fr wf f cf sib" by (cases fr)
    note fs = Cons[unfolded fr]
    have shf: "shape s (plug fs' (nd wf ?t f cf sib))" using sh by (simp add: fs)
    from shape_focus[OF shf] obtain fn where fn: "mem s f = Some fn" "father fn = top fs'"
      "fs' \<noteq> [] \<longrightarrow> which fn = side fs'" "color fn = cf" by blast
    have tnf: "father tn = Some f" "which tn = wf" using tn fs by auto
    show ?thesis
    proof (cases cf)
      case BLACK
      have "insert_fix a s = Some s" using insert_fix_black[OF tn(1) tnf(1) fn(1)] fn(4) BLACK by simp
      moreover have "rbt (plug fs ?t)"
      proof -
        have "bheight sib = bheight l" using less.prems(10) by (simp add: fs)
        then have "bheight (nd wf ?t f BLACK sib) = Suc (bheight l)" by (cases wf) simp_all
        moreover have "col (plug fs ?t) = BLACK" using less.prems(11) by (simp add: fs col_plug)
        ultimately show ?thesis
          using less.prems(2-10) BLACK
          by (simp add: rbt_def invc_plug invh_plug fs)
      qed
      ultimately show ?thesis using sh by (intro exI[of _ s] exI[of _ "plug fs ?t"]) simp
    next
      case RED
      have sibB: "col sib = BLACK" "pcol fs' = BLACK" "invc sib" "invc_ctx fs'"
        using less.prems(9) RED by (auto simp: fs)
      have "fs' \<noteq> []" using less.prems(11) RED by (auto simp: fs)
      then obtain fr' fs'' where Cons': "fs' = fr' # fs''" by (cases fs') auto
      obtain wg g cg U where fr': "fr' = Fr wg g cg U" by (cases fr')
      note fs' = Cons'[unfolded fr']
      have cg: "cg = BLACK" using sibB(2) by (simp add: fs')
      let ?F = "nd wf ?t f RED sib"
      have shg: "shape s (plug fs'' (nd wg ?F g BLACK U))" using shf by (simp add: fs' cg RED)
      from shape_focus[OF shg] obtain gn where gn: "mem s g = Some gn" "child gn wg = Some f"
        "child gn (\<not> wg) = rootp U" by auto
      have fnf: "father fn = Some g" "which fn = wg" "color fn = RED" using fn fs' RED by auto
      have shU: "shape s (plug (Fr (\<not> wg) g BLACK ?F # fs'') U)"
        using shg by (simp add: nd_flip[of wg ?F])
      have nob: "null_or_black (child gn (\<not> which fn)) s = Some (col U = BLACK)"
        using null_or_black_shape[OF shU] gn fnf by simp
      have hts: "bheight sib = bheight l" "invh sib" "invh U" "bheight U = bheight l"
        "invh_ctx fs'' (Suc (bheight l))" "invc U" "invc_ctx fs''"
        using less.prems(10) sibB(4) by (auto simp: fs fs' RED cg)
      have rc: "rcol fs'' BLACK = BLACK" using less.prems(11) by (simp add: fs fs' cg)
      show ?thesis
      proof (cases "col U")
        case RED
        then obtain ul u ur where U: "U = Node ul u RED ur" by (cases U) auto
        have shU': "shape s (plug (Fr (\<not> wg) g BLACK ?F # fs'') (nd False ul u RED ur))"
          using shU U by simp
        from recolor_shape[OF shU', of BLACK] obtain s1 where s1:
          "upd (Some u) (\<lambda>n. n\<lparr>color := BLACK\<rparr>) s = Some s1"
          "shape s1 (plug (Fr (\<not> wg) g BLACK ?F # fs'') (Node ul u BLACK ur))" "same_payload s s1" by auto
        let ?U' = "Node ul u BLACK ur"
        have sh1: "shape s1 (plug (Fr wg g BLACK ?U' # fs'') (nd wf ?t f RED sib))"
          using s1(2) by (simp add: nd_flip[of wg ?F])
        from recolor_shape[OF sh1, of BLACK] obtain s2 where s2:
          "upd (Some f) (\<lambda>n. n\<lparr>color := BLACK\<rparr>) s1 = Some s2"
          "shape s2 (plug (Fr wg g BLACK ?U' # fs'') (nd wf ?t f BLACK sib))" "same_payload s1 s2" by auto
        let ?F' = "nd wf ?t f BLACK sib"
        have sh2: "shape s2 (plug fs'' (nd wg ?F' g BLACK ?U'))" using s2(2) by simp
        from recolor_shape[OF sh2, of RED] obtain s3 where s3:
          "upd (Some g) (\<lambda>n. n\<lparr>color := RED\<rparr>) s2 = Some s3"
          "shape s3 (plug fs'' (nd wg ?F' g RED ?U'))" "same_payload s2 s3" by auto
        have eq: "insert_fix a s = insert_fix g s3"
          using insert_fix_red_uncle[OF tn(1) tnf(1) fn(1) fnf(3) fnf(1) gn(1)] nob RED gn(3) fnf(2) U s1(1) s2(1) s3(1)
          by simp
        define l' where "l' = (if wg then ?U' else ?F')"
        define r' where "r' = (if wg then ?F' else ?U')"
        have lr: "nd wg ?F' g RED ?U' = Node l' g RED r'" by (simp add: l'_def r'_def)
        have pre': "invc l'" "invc r'" "col l' = BLACK" "col r' = BLACK" "invh l'" "invh r'"
          "bheight l' = bheight r'" "bheight l' = Suc (bheight l)"
          using less.prems(2-8) hts sibB U unfolding l'_def r'_def by (cases wg; cases wf; simp)+
        have len: "length fs'' < length fs" by (simp add: fs fs')
        from less.hyps[OF len, of s3 l' g r'] s3(2) pre' hts rc lr
        obtain s' T' where res: "insert_fix g s3 = Some s'" "shape s' T'"
          "inorder T' = inorder (plug fs'' (Node l' g RED r'))" "rbt T'" "same_payload s3 s'"
          by auto
        have "inorder (plug fs'' (Node l' g RED r')) = inorder (plug fs ?t)"
          unfolding lr[symmetric] by (simp add: fs fs' U inorder_plug inorder_nd)
        moreover have "same_payload s s'"
          using s1(3) s2(3) s3(3) res(5) by (blast intro: same_payload_trans)
        ultimately show ?thesis using res eq by (intro exI[of _ s'] exI[of _ T']) simp
      next
        case BLACK
        note UB = BLACK
        show ?thesis
        proof (cases "wf = wg")
          case True
          have sh0: "shape s (plug (Fr wg g BLACK U # fs'') (nd wf ?t f RED sib))" using shg by simp
          from recolor_shape[OF sh0, of BLACK] obtain s1 where s1:
            "upd (Some f) (\<lambda>n. n\<lparr>color := BLACK\<rparr>) s = Some s1"
            "shape s1 (plug (Fr wg g BLACK U # fs'') (nd wf ?t f BLACK sib))" "same_payload s s1" by auto
          let ?F' = "nd wf ?t f BLACK sib"
          have sh1: "shape s1 (plug fs'' (nd wg ?F' g BLACK U))" using s1(2) by simp
          from recolor_shape[OF sh1, of RED] obtain s2 where s2:
            "upd (Some g) (\<lambda>n. n\<lparr>color := RED\<rparr>) s1 = Some s2"
            "shape s2 (plug fs'' (nd wg ?F' g RED U))" "same_payload s1 s2" by auto
          have sh2t: "shape s2 (plug (Fr wf f BLACK sib # Fr wg g RED U # fs'') (nd False l a RED r))"
            using s2(2) by simp
          from shape_focus[OF sh2t] obtain tn2 where tn2: "mem s2 a = Some tn2" "which tn2 = wf" by auto
          have eq: "insert_fix a s = rotate g (\<not> wf) s2"
            using insert_fix_zigzig[OF tn(1) tnf(1) fn(1) fnf(3) fnf(1) gn(1) _ _ s1(1) s2(1) tn2(1)]
              nob UB tnf(2) fnf(2) True tn2(2) by simp
          have sh2r: "shape s2 (plug fs'' (nd (\<not> wf) U g RED (nd (\<not> wf) sib f BLACK ?t)))"
            using s2(2) True by (cases wf) simp_all
          from rotate_shape[OF sh2r] obtain s3 where s3: "rotate g (\<not> wf) s2 = Some s3"
            "shape s3 (plug fs'' (nd (\<not> wf) (nd (\<not> wf) U g RED sib) f BLACK ?t))" "same_payload s2 s3" by blast
          let ?T' = "plug fs'' (nd (\<not> wf) (nd (\<not> wf) U g RED sib) f BLACK ?t)"
          have "rbt ?T'"
            using less.prems(2-8) hts sibB UB rc
            by (cases wf) (simp_all add: rbt_def invc_plug invh_plug col_plug)
          moreover have "inorder ?T' = inorder (plug fs ?t)"
            using True by (simp add: fs fs' inorder_plug inorder_nd)
          moreover have "same_payload s s3"
            using s1(3) s2(3) s3(3) by (blast intro: same_payload_trans)
          ultimately show ?thesis using s3 eq by (intro exI[of _ s3] exI[of _ ?T']) simp
        next
          case False
          then have wgf: "wg = (\<not> wf)" by auto
          have sh0: "shape s (plug fs (nd False l a RED r))" using sh by simp
          from recolor_shape[OF sh0, of BLACK] obtain s1 where s1:
            "upd (Some a) (\<lambda>n. n\<lparr>color := BLACK\<rparr>) s = Some s1"
            "shape s1 (plug fs (Node l a BLACK r))" "same_payload s s1" by auto
          let ?t' = "Node l a BLACK r"
          let ?F' = "nd wf ?t' f RED sib"
          have sh1: "shape s1 (plug fs'' (nd wg ?F' g BLACK U))" using s1(2) by (simp add: fs fs' cg RED)
          from recolor_shape[OF sh1, of RED] obtain s2 where s2:
            "upd (Some g) (\<lambda>n. n\<lparr>color := RED\<rparr>) s1 = Some s2"
            "shape s2 (plug fs'' (nd wg ?F' g RED U))" "same_payload s1 s2" by auto
          have sh2t: "shape s2 (plug (Fr wf f RED sib # Fr wg g RED U # fs'') (nd False l a BLACK r))"
            using s2(2) by simp
          from shape_focus[OF sh2t] obtain tn2 where tn2: "mem s2 a = Some tn2" "which tn2 = wf" by auto
          let ?B = "if wf then l else r" let ?C = "if wf then r else l"
          have t'nd: "?t' = nd (\<not> wf) ?B a BLACK ?C" by simp
          have sh2r: "shape s2 (plug (Fr wg g RED U # fs'') (nd (\<not> wf) sib f RED (nd (\<not> wf) ?B a BLACK ?C)))"
            using s2(2) by (cases wf) simp_all
          from rotate_shape[OF sh2r] obtain s3 where s3: "rotate f (\<not> wf) s2 = Some s3"
            "shape s3 (plug (Fr wg g RED U # fs'') (nd (\<not> wf) (nd (\<not> wf) sib f RED ?B) a BLACK ?C))"
            "same_payload s2 s3" by blast
          let ?Fs = "nd (\<not> wf) sib f RED ?B"
          have sh3t: "shape s3 (plug (Fr wg g RED U # fs'') (nd (\<not> wf) ?Fs a BLACK ?C))" using s3(2) .
          from shape_focus[OF sh3t] obtain tn3 where tn3: "mem s3 a = Some tn3" "which tn3 = wg" by auto
          have eq: "insert_fix a s = rotate g (\<not> wg) s3"
            using insert_fix_zigzag[OF tn(1) tnf(1) fn(1) fnf(3) fnf(1) gn(1) _ _ s1(1) s2(1) tn2(1) _ tn3(1)]
              nob UB tnf(2) fnf(2) False tn2(2) s3(1) tn3(2) by simp
          have sh3r: "shape s3 (plug fs'' (nd (\<not> wg) U g RED (nd (\<not> wg) ?C a BLACK ?Fs)))"
            using s3(2) wgf by (cases wf) simp_all
          from rotate_shape[OF sh3r] obtain s4 where s4: "rotate g (\<not> wg) s3 = Some s4"
            "shape s4 (plug fs'' (nd (\<not> wg) (nd (\<not> wg) U g RED ?C) a BLACK ?Fs))" "same_payload s3 s4" by blast
          let ?T' = "plug fs'' (nd (\<not> wg) (nd (\<not> wg) U g RED ?C) a BLACK ?Fs)"
          have "rbt ?T'"
            using less.prems(2-8) hts sibB UB rc wgf
            by (cases wf) (simp_all add: rbt_def invc_plug invh_plug col_plug)
          moreover have "inorder ?T' = inorder (plug fs ?t)"
            using wgf by (cases wf) (simp_all add: fs fs' inorder_plug)
          moreover have "same_payload s s4"
            using s1(3) s2(3) s3(3) s4(3) by (blast intro: same_payload_trans)
          ultimately show ?thesis using s4 eq by (intro exI[of _ s4] exI[of _ ?T']) simp
        qed
      qed
    qed
  qed
qed

lemma link_iff: "link h a b = (map_option next (h a) = Some (Some b) \<and> map_option prev (h b) = Some (Some a))"
  by (auto simp: link_def split: option.splits)

lemma succ_link_eq:
  assumes "\<And>x. x \<in> set zs \<Longrightarrow> x \<noteq> last zs \<Longrightarrow> map_option next (h' x) = map_option next (h x)"
    and "\<And>y. y \<in> set zs \<Longrightarrow> y \<noteq> hd zs \<Longrightarrow> map_option prev (h' y) = map_option prev (h y)"
    and "distinct zs"
  shows "successively (link h') zs = successively (link h) zs"
  using assms
proof (induction zs rule: induct_list012)
  case (3 x y zs)
  have "successively (link h') (y # zs) = successively (link h) (y # zs)"
    using 3(3,4,5) by (intro 3(2)) (auto split: if_splits)
  moreover have "last (y # zs) \<in> set (y # zs)" by (rule last_in_set) simp
  then have "x \<noteq> last (x # y # zs)" using 3(5) by auto
  then have "link h' x y = link h x y"
    using 3(3)[of x] 3(4)[of y] 3(5) by (simp add: link_iff)
  ultimately show ?case by simp
qed auto

lemma link_splice_insert:
  assumes S: "successively (link h) (xs @ ys)" and ne: "xs \<noteq> []" "ys \<noteq> []"
    and d: "distinct (xs @ ys)"
    and la: "link h' (last xs) a" "link h' a (hd ys)"
    and nx: "\<And>z. z \<in> set (xs @ ys) \<Longrightarrow> z \<noteq> last xs \<Longrightarrow> map_option next (h' z) = map_option next (h z)"
    and pv: "\<And>z. z \<in> set (xs @ ys) \<Longrightarrow> z \<noteq> hd ys \<Longrightarrow> map_option prev (h' z) = map_option prev (h z)"
  shows "successively (link h') (xs @ a # ys)"
proof -
  have hy: "hd ys \<notin> set xs" "last xs \<notin> set ys" using d ne
    by (metis disjoint_iff distinct_append hd_in_set, metis disjoint_iff distinct_append last_in_set)
  have 1: "successively (link h') xs = successively (link h) xs"
    using d nx pv hy by (intro succ_link_eq) auto
  have 2: "successively (link h') ys = successively (link h) ys"
    using d nx pv hy by (intro succ_link_eq) auto
  show ?thesis
    using S ne la by (simp add: successively_append_iff 1 2 successively_Cons)
qed

lemma link_splice_remove:
  assumes S: "successively (link h) (xs @ a # ys)" and ne: "xs \<noteq> []" "ys \<noteq> []"
    and d: "distinct (xs @ a # ys)"
    and la: "link h' (last xs) (hd ys)"
    and nx: "\<And>z. z \<in> set (xs @ ys) \<Longrightarrow> z \<noteq> last xs \<Longrightarrow> map_option next (h' z) = map_option next (h z)"
    and pv: "\<And>z. z \<in> set (xs @ ys) \<Longrightarrow> z \<noteq> hd ys \<Longrightarrow> map_option prev (h' z) = map_option prev (h z)"
  shows "successively (link h') (xs @ ys)"
proof -
  have hy: "hd ys \<notin> set xs" "last xs \<notin> set ys" using d ne
    by (metis (no_types, lifting) Un_iff disjoint_iff distinct_append hd_in_set list.set_intros(2) set_append,
        metis (no_types, lifting) disjoint_iff distinct_append last_in_set list.set_intros(2))
  have 1: "successively (link h') xs = successively (link h) xs"
    using d nx pv hy by (intro succ_link_eq) auto
  have 2: "successively (link h') ys = successively (link h) ys"
    using d nx pv hy by (intro succ_link_eq) auto
  show ?thesis
    using S ne la by (simp add: successively_append_iff 1 2 successively_Cons)
qed

lemma succ_link_adjacent:
  "successively (link h) (xs @ ys) \<Longrightarrow> xs \<noteq> [] \<Longrightarrow> ys \<noteq> [] \<Longrightarrow> link h (last xs) (hd ys)"
  by (simp add: successively_append_iff)

lemma tr_frame_tf: "(\<And>a. a \<in> set (inorder t) \<Longrightarrow> map_option tf (h' a) = map_option tf (h a)) \<Longrightarrow> tr h' f w t = tr h f w t"
proof (induction t arbitrary: f w)
  case Leaf
  then show ?case by simp
next
  case (Node l a c r)
  have 1: "tr h' (Some a) LEFT l = tr h (Some a) LEFT l" using Node.prems by (intro Node.IH) auto
  have 2: "tr h' (Some a) RIGHT r = tr h (Some a) RIGHT r" using Node.prems by (intro Node.IH) auto
  show ?case using Node.prems[of a] by (auto simp: 1 2 tf_def split: option.splits)
qed

lemma trc_frame_tf: "(\<And>a. a \<in> set (pre fs) \<union> set (post fs) \<Longrightarrow> map_option tf (h' a) = map_option tf (h a))
   \<Longrightarrow> trc h' fs q = trc h fs q"
proof (induction fs arbitrary: q)
  case Nil
  then show ?case by simp
next
  case (Cons fr fs)
  obtain w p c sib where fr: "fr = Fr w p c sib" by (cases fr)
  have 1: "map_option tf (h' p) = map_option tf (h p)" using Cons.prems[of p] by (auto simp: fr)
  have 2: "tr h' (Some p) (\<not> w) sib = tr h (Some p) (\<not> w) sib"
    using Cons.prems by (intro tr_frame_tf) (auto simp: fr)
  have 3: "trc h' fs (Some p) = trc h fs (Some p)"
    using Cons.prems by (intro Cons.IH) (auto simp: fr split: if_splits)
  show ?case using 1 by (auto simp add: fr 2 3 tf_def split: option.splits)
qed

lemma trc_redirect_tf:
  assumes "trc h fs q"
    and "distinct (pre fs @ post fs)"
    and "\<And>a. a \<in> set (pre fs) \<union> set (post fs) \<Longrightarrow> top fs \<noteq> Some a \<Longrightarrow> map_option tf (h' a) = map_option tf (h a)"
    and "\<And>a. top fs = Some a \<Longrightarrow> map_option tf (h' a) = map_option (\<lambda>n. tf (n\<lparr>child := (child n)(side fs := q')\<rparr>)) (h a)"
  shows "trc h' fs q'"
proof (cases fs)
  case Nil
  then show ?thesis by simp
next
  case (Cons fr fs')
  obtain w p c sib where fr: "fr = Fr w p c sib" by (cases fr)
  have 2: "tr h' (Some p) (\<not> w) sib = tr h (Some p) (\<not> w) sib"
    using assms(2,3) by (intro tr_frame_tf) (auto simp: fr Cons split: if_splits)
  have 3: "trc h' fs' (Some p) = trc h fs' (Some p)"
    using assms(2,3) by (intro trc_frame_tf) (auto simp: fr Cons split: if_splits)
  show ?thesis using assms(1) assms(4)[of p] by (auto simp: fr Cons 2 3 tf_def split: option.splits)
qed

lemma new_node_leaf:
  fixes s :: "('k, 'v) map_state"
  assumes "mem s (brk s) = None" "mem s pv \<noteq> None" "mem s nx \<noteq> None"
    and "\<And>f. fo = Some f \<Longrightarrow> mem s f \<noteq> None"
  shows "new_node v (Some pv) (Some nx) fo None None w s = Some (brk s, s\<lparr>mem :=
      mo fo (\<lambda>x. x\<lparr>child := (child x)(w := Some (brk s))\<rparr>)
     (mo (Some nx) (\<lambda>x. x\<lparr>prev := Some (brk s)\<rparr>)
     (mo (Some pv) (\<lambda>x. x\<lparr>next := Some (brk s)\<rparr>)
       ((mem s)(brk s \<mapsto> \<lparr>prev = Some pv, next = Some nx, father = fo, child = (\<lambda>d. None),
            which = w, color = RED, val = Some v\<rparr>)))), brk := Suc (brk s)\<rparr>)"
proof -
  let ?a = "brk s"
  let ?n = "\<lparr>prev = Some pv, next = Some nx, father = fo, child = (\<lambda>d. None),
            which = w, color = RED, val = Some v\<rparr> :: ('k, 'v) rbt_node"
  let ?S = "\<lambda>h. s\<lparr>mem := h, brk := Suc ?a\<rparr>"
  let ?h0 = "(mem s)(?a \<mapsto> ?n)"
  have ne: "pv \<noteq> ?a" "nx \<noteq> ?a" "\<And>f. fo = Some f \<Longrightarrow> f \<noteq> ?a" using assms by auto
  let ?h1 = "mo (Some pv) (\<lambda>x. x\<lparr>next := Some ?a\<rparr>) ?h0"
  have u1: "upd (Some pv) (\<lambda>x. x\<lparr>next := Some ?a\<rparr>) (?S ?h0) = Some (?S ?h1)"
    using upd_mo[of "Some pv" "?S ?h0"] assms(2) ne by (simp add: rd_def)
  have a1: "?h1 ?a = Some ?n" using ne by (simp add: mo_apply)
  let ?h2 = "mo (Some nx) (\<lambda>x. x\<lparr>prev := Some ?a\<rparr>) ?h1"
  have u2: "upd (Some nx) (\<lambda>x. x\<lparr>prev := Some ?a\<rparr>) (?S ?h1) = Some (?S ?h2)"
    using upd_mo[of "Some nx" "?S ?h1"] assms(3) ne by (simp add: rd_def mo_apply)
  have a2: "?h2 ?a = Some ?n" using ne by (simp add: mo_apply)
  let ?h3 = "mo fo (\<lambda>x. x\<lparr>child := (child x)(w := Some ?a)\<rparr>) ?h2"
  have u3: "(case fo of None \<Rightarrow> Some (?S ?h2)
            | Some f \<Rightarrow> upd (Some f) (\<lambda>x. x\<lparr>child := (child x)(which ?n := Some ?a)\<rparr>) (?S ?h2))
         = Some (?S ?h3)"
    using upd_opt_mo[of fo "?S ?h2" "\<lambda>x. x\<lparr>child := (child x)(w := Some ?a)\<rparr>"] assms(4) ne
    by (simp add: mo_apply cong: option.case_cong)
  have a3: "?h3 ?a = Some ?n" using ne by (auto simp add: mo_apply)
  have "update_nearby ?a (?S ?h0) = Some (?S ?h3)"
    unfolding update_nearby_def
    by (simp add: u1 a1 u2 a2 u3 a3)
  then show ?thesis
    by (simp add: new_node_def Let_def)
qed

lemma mo_proj_same: "(\<And>n. g (f n) = g n) \<Longrightarrow> map_option g (mo p f h z) = map_option g (h z)"
  by (auto simp: mo_apply option.map_comp comp_def)

lemma mo_proj: "map_option g (mo p f h z) = (if p = Some z then map_option (\<lambda>n. g (f n)) (h z) else map_option g (h z))"
  by (auto simp: mo_apply option.map_comp comp_def)

lemma tf_list [simp]: "tf (n\<lparr>prev := x\<rparr>) = tf n" "tf (n\<lparr>next := x\<rparr>) = tf n"
  by (simp_all add: tf_def)

lemma shape_alloc:
  assumes "shape s t" and "z \<in> set (head s # inorder t @ [tail s])"
  shows "mem s z \<noteq> None"
proof -
  let ?zs = "head s # inorder t @ [tail s]"
  have S: "successively (link (mem s)) ?zs" and d: "distinct ?zs" using assms by (auto simp: shape_def)
  have "z \<noteq> hd ?zs \<or> z \<noteq> last ?zs" using d by auto
  then consider p where "link (mem s) p z" | n where "link (mem s) z n"
    using successively_neighbours[OF S assms(2)] by blast
  then show ?thesis by cases (auto simp: link_def split: option.splits)
qed

lemma shape_fresh: "shape s t \<Longrightarrow> mem s (brk s) = None"
  by (auto simp: shape_def)

lemma insert_leaf_shape:
  fixes s :: "('k, 'v) map_state"
  assumes sh: "shape s (plug fs Leaf)"
  shows "\<exists>s'. new_node v (Some (last (head s # pre fs))) (Some (hd (post fs @ [tail s]))) (top fs) None None (side fs) s
        = Some (brk s, s')
     \<and> shape (s'\<lparr>root := rootp (plug fs (Node Leaf (brk s) RED Leaf))\<rparr>) (plug fs (Node Leaf (brk s) RED Leaf))
     \<and> (fs \<noteq> [] \<longrightarrow> root s' = rootp (plug fs (Node Leaf (brk s) RED Leaf)))
     \<and> head s' = head s \<and> tail s' = tail s \<and> msize s' = msize s \<and> brk s' = Suc (brk s)
     \<and> map_option val (mem s' (brk s)) = Some (Some v)
     \<and> (\<forall>b. b \<noteq> brk s \<longrightarrow> map_option val (mem s' b) = map_option val (mem s b))"
proof -
  let ?a = "brk s" let ?h = "mem s"
  let ?xs = "head s # pre fs" let ?ys = "post fs @ [tail s]"
  define pv where "pv = last ?xs"
  define nx where "nx = hd ?ys"
  let ?T = "plug fs Leaf" let ?T' = "plug fs (Node Leaf ?a RED Leaf)"
  let ?n = "\<lparr>prev = Some pv, next = Some nx, father = top fs, child = (\<lambda>d. None),
            which = side fs, color = RED, val = Some v\<rparr> :: ('k, 'v) rbt_node"
  have zs: "head s # inorder ?T @ [tail s] = ?xs @ ?ys" by (simp add: inorder_plug)
  have fresh: "?h ?a = None" using sh by (rule shape_fresh)
  have pvin: "pv \<in> set (?xs @ ?ys)" "nx \<in> set (?xs @ ?ys)" unfolding pv_def nx_def
    by (metis Un_iff last_in_set list.distinct(1) set_append, metis Un_iff hd_in_set snoc_eq_iff_butlast set_append)
  have al: "\<And>z. z \<in> set (?xs @ ?ys) \<Longrightarrow> ?h z \<noteq> None"
    using shape_alloc[OF sh] unfolding zs by blast
  have apv: "?h pv \<noteq> None" and anx: "?h nx \<noteq> None" using al pvin by blast+
  from sh have trT: "tr ?h None LEFT ?T" and rt: "root s = rootp ?T"
    and dist: "distinct (?xs @ ?ys)" and succ: "successively (link ?h) (?xs @ ?ys)"
    and bound: "\<forall>a. ?h a \<noteq> None \<longrightarrow> a < brk s"
    unfolding zs[symmetric] by (auto simp: shape_def)
  from trT have c0: "trc ?h fs None" by (simp add: tr_plug)
  have af: "\<And>f. top fs = Some f \<Longrightarrow> ?h f \<noteq> None"
    using c0 by (cases fs rule: top.cases) (auto split: option.splits)
  define h' where "h' = mo (top fs) (\<lambda>x. x\<lparr>child := (child x)(side fs := Some ?a)\<rparr>)
     (mo (Some nx) (\<lambda>x. x\<lparr>prev := Some ?a\<rparr>)
     (mo (Some pv) (\<lambda>x. x\<lparr>next := Some ?a\<rparr>) (?h(?a \<mapsto> ?n))))"
  let ?s' = "s\<lparr>mem := h', brk := Suc ?a\<rparr>"
  have run: "new_node v (Some (last ?xs)) (Some (hd ?ys)) (top fs) None None (side fs) s = Some (?a, ?s')"
    using new_node_leaf[OF fresh apv anx af] unfolding h'_def pv_def nx_def by simp
  have ne: "pv \<noteq> ?a" "nx \<noteq> ?a" "top fs \<noteq> Some ?a" using fresh apv anx af by auto
  have anin: "?a \<notin> set (?xs @ ?ys)" using al fresh by blast
  have h'a: "h' ?a = Some ?n" using ne unfolding h'_def by (simp add: mo_apply)
  have tfo: "map_option tf (h' z) =
      (if top fs = Some z then map_option (\<lambda>n. tf (n\<lparr>child := (child n)(side fs := Some ?a)\<rparr>)) (?h z)
       else map_option tf (?h z))" if "z \<noteq> ?a" for z
    using that unfolding h'_def by (simp add: mo_proj mo_proj_same tf_def[abs_def])
  have pvo: "map_option prev (h' z) = (if z = nx then map_option (\<lambda>_. Some ?a) (?h z) else map_option prev (?h z))"
    if "z \<noteq> ?a" for z
    using that unfolding h'_def by (simp add: mo_proj mo_proj_same)
  have nxo: "map_option next (h' z) = (if z = pv then map_option (\<lambda>_. Some ?a) (?h z) else map_option next (?h z))"
    if "z \<noteq> ?a" for z
    using that unfolding h'_def by (simp add: mo_proj mo_proj_same)
  have vlo: "map_option val (h' z) = map_option val (?h z)" if "z \<noteq> ?a" for z
    using that unfolding h'_def by (simp add: mo_proj mo_proj_same)
  have dc: "distinct (pre fs @ post fs)" using dist by auto
  have ain: "?a \<notin> set (pre fs) \<union> set (post fs)" using anin by auto
  have c': "trc h' fs (Some ?a)"
  proof (rule trc_redirect_tf[OF c0 dc])
    fix z assume "z \<in> set (pre fs) \<union> set (post fs)" "top fs \<noteq> Some z"
    then show "map_option tf (h' z) = map_option tf (?h z)" using ain tfo[of z] by auto
  next
    fix z assume "top fs = Some z"
    then show "map_option tf (h' z) = map_option (\<lambda>n. tf (n\<lparr>child := (child n)(side fs := Some ?a)\<rparr>)) (?h z)"
      using ne tfo[of z] by auto
  qed
  have t': "tr h' (top fs) (side fs) (Node Leaf ?a RED Leaf)"
    by (simp add: h'a)
  have trT': "tr h' None LEFT ?T'" using c' t' by (simp add: tr_plug)
  have lk1: "link h' pv ?a"
    using apv ne h'a nxo[of pv] by (auto simp: link_iff)
  have lk2: "link h' ?a nx"
    using anx ne h'a pvo[of nx] by (auto simp: link_iff)
  have succ': "successively (link h') (?xs @ ?a # ?ys)"
  proof (rule link_splice_insert[OF succ _ _ dist])
    show "link h' (last ?xs) ?a" using lk1 by (simp add: pv_def)
    show "link h' ?a (hd ?ys)" using lk2 by (simp add: nx_def)
    fix z assume z: "z \<in> set (?xs @ ?ys)"
    then have "z \<noteq> ?a" using anin by blast
    { assume "z \<noteq> last ?xs" then show "map_option next (h' z) = map_option next (?h z)"
        using nxo[OF \<open>z \<noteq> ?a\<close>] by (simp add: pv_def) }
    { assume "z \<noteq> hd ?ys" then show "map_option prev (h' z) = map_option prev (?h z)"
        using pvo[OF \<open>z \<noteq> ?a\<close>] by (simp add: nx_def) }
  qed simp_all
  have dist': "distinct (?xs @ ?a # ?ys)" using dist anin by auto
  have bound': "\<forall>z. h' z \<noteq> None \<longrightarrow> z < Suc ?a"
    using bound unfolding h'_def by (auto simp: mo_apply split: if_splits)
  have zs': "head s # inorder ?T' @ [tail s] = ?xs @ ?a # ?ys" by (simp add: inorder_plug)
  have "shape (?s'\<lparr>root := rootp ?T'\<rparr>) ?T'"
    unfolding shape_def using trT' succ' dist' bound' by (simp add: zs')
  moreover have "fs \<noteq> [] \<longrightarrow> root ?s' = rootp ?T'" using rt by (simp add: rootp_plug)
  moreover have "map_option val (h' ?a) = Some (Some v)" by (simp add: h'a)
  ultimately show ?thesis using run vlo by (intro exI[of _ ?s']) simp
qed

lemma plug_down: "plug fs (Node l a c r) = plug (Fr True a c l # fs) r"
  "plug fs (Node l a c r) = plug (Fr False a c r # fs) l"
  by simp_all

lemma insert_descend_correct:
  fixes s :: "('k, 'v) map_state"
  assumes sh: "shape s (plug fs t)" and cur: "rootp t = Some cur"
    and srt: "sorted_wrt cmp (map (key_at (mem s)) (inorder (plug fs t)))" and tr: "transp cmp"
    and lo: "\<forall>x \<in> set (pre fs). cmp (key_at (mem s) x) k"
    and hi: "\<forall>y \<in> set (post fs). cmp k (key_at (mem s) y)"
  shows "(\<exists>c. insert_descend cmp k cur s = Some (c, None) \<and> c \<in> set (inorder t)
            \<and> \<not> cmp (key_at (mem s) c) k \<and> \<not> cmp k (key_at (mem s) c))
       \<or> (\<exists>c w cc sib fs'. insert_descend cmp k cur s = Some (c, Some w)
            \<and> plug fs t = plug (Fr w c cc sib # fs') Leaf
            \<and> (\<forall>x \<in> set (pre (Fr w c cc sib # fs')). cmp (key_at (mem s) x) k)
            \<and> (\<forall>y \<in> set (post (Fr w c cc sib # fs')). cmp k (key_at (mem s) y)))"
  using sh cur srt lo hi
proof (induction t arbitrary: fs cur)
  case Leaf
  then show ?case by simp
next
  case (Node l a c r)
  let ?K = "key_at (mem s)"
  from Node.prems(2) have cur: "cur = a" by simp
  from shape_focus_Node[OF Node.prems(1)] obtain n where n: "mem s a = Some n"
    "child n LEFT = rootp l" "child n RIGHT = rootp r" "val n \<noteq> None" by blast
  then obtain kv where kv: "val n = Some kv" by auto
  have ka: "?K a = fst kv" using n(1) kv by (simp add: key_at_def)
  have srt: "sorted_wrt cmp (map ?K (pre fs @ inorder l @ a # inorder r @ post fs))"
    using Node.prems(3) by (simp add: inorder_plug)
  have unf: "insert_descend cmp k a s =
     (if \<not> cmp (?K a) k \<and> \<not> cmp k (?K a) then Some (a, None)
      else case child n (cmp (?K a) k) of None \<Rightarrow> Some (a, Some (cmp (?K a) k))
           | Some c \<Rightarrow> insert_descend cmp k c s)"
    by (subst insert_descend.simps) (simp add: n(1) kv ka Let_def cong: option.case_cong)
  show ?case
  proof (cases "\<not> cmp (?K a) k \<and> \<not> cmp k (?K a)")
    case True
    then show ?thesis using unf cur by auto
  next
    case False
    show ?thesis
    proof (cases "cmp (?K a) k")
      case True
      let ?fs1 = "Fr True a c l # fs"
      have pl: "plug fs (Node l a c r) = plug ?fs1 r" by simp
      have lo1: "\<forall>x \<in> set (pre ?fs1). cmp (?K x) k"
      proof
        fix x assume "x \<in> set (pre ?fs1)"
        then consider "x \<in> set (pre fs)" | "x \<in> set (inorder l)" | "x = a" by auto
        then show "cmp (?K x) k"
        proof cases
          case 1 then show ?thesis using Node.prems(4) by blast
        next
          case 2
          then have "cmp (?K x) (?K a)" using srt by (auto simp: sorted_wrt_append)
          then show ?thesis using True tr by (meson transpD)
        next
          case 3 then show ?thesis using True by simp
        qed
      qed
      have hi1: "\<forall>y \<in> set (post ?fs1). cmp k (?K y)" using Node.prems(5) by simp
      show ?thesis
      proof (cases r)
        case Leaf
        then have "insert_descend cmp k a s = Some (a, Some True)"
          using unf True n(3) by simp
        then show ?thesis using lo1 hi1 pl Leaf cur by blast
      next
        case (Node rl ra rc rr)
        then have rr: "rootp r = Some ra" by simp
        have e: "insert_descend cmp k a s = insert_descend cmp k ra s"
          using unf True n(3) rr by simp
        have sh1: "shape s (plug ?fs1 r)" using Node.prems(1) by simp
        have srt1: "sorted_wrt cmp (map ?K (inorder (plug ?fs1 r)))" using Node.prems(3) by simp
        from Node.IH(2)[OF sh1 rr srt1 lo1 hi1] consider
          (found) c' where "insert_descend cmp k ra s = Some (c', None)" "c' \<in> set (inorder r)"
            "\<not> cmp (?K c') k" "\<not> cmp k (?K c')"
        | (leaf) c' w cc sib fs' where "insert_descend cmp k ra s = Some (c', Some w)"
            "plug ?fs1 r = plug (Fr w c' cc sib # fs') Leaf"
            "\<forall>x \<in> set (pre (Fr w c' cc sib # fs')). cmp (?K x) k"
            "\<forall>y \<in> set (post (Fr w c' cc sib # fs')). cmp k (?K y)"
          by blast
        then show ?thesis
        proof cases
          case found
          have "c' \<in> set (inorder (tree.Node l a c r))" using found(2) by simp
          then show ?thesis using found(1,3,4) e cur by metis
        next
          case leaf
          have "plug fs (tree.Node l a c r) = plug (Fr w c' cc sib # fs') Leaf"
            using leaf(2) pl by (simp only:)
          then show ?thesis using leaf(1,3,4) e cur by metis
        qed
      qed
    next
      case F: False
      with False have lt: "cmp k (?K a)" by simp
      let ?fs1 = "Fr False a c r # fs"
      have pl: "plug fs (Node l a c r) = plug ?fs1 l" by simp
      have hi1: "\<forall>y \<in> set (post ?fs1). cmp k (?K y)"
      proof
        fix y assume "y \<in> set (post ?fs1)"
        then consider "y \<in> set (post fs)" | "y \<in> set (inorder r)" | "y = a" by auto
        then show "cmp k (?K y)"
        proof cases
          case 1 then show ?thesis using Node.prems(5) by blast
        next
          case 2
          then have "cmp (?K a) (?K y)" using srt by (auto simp: sorted_wrt_append)
          then show ?thesis using lt tr by (meson transpD)
        next
          case 3 then show ?thesis using lt by simp
        qed
      qed
      have lo1: "\<forall>x \<in> set (pre ?fs1). cmp (?K x) k" using Node.prems(4) by simp
      show ?thesis
      proof (cases l)
        case Leaf
        then have "insert_descend cmp k a s = Some (a, Some False)"
          using unf F lt n(2) by simp
        then show ?thesis using lo1 hi1 pl Leaf cur by blast
      next
        case (Node ll la lc lr)
        then have rr: "rootp l = Some la" by simp
        have e: "insert_descend cmp k a s = insert_descend cmp k la s"
          using unf F lt n(2) rr by simp
        have sh1: "shape s (plug ?fs1 l)" using Node.prems(1) by simp
        have srt1: "sorted_wrt cmp (map ?K (inorder (plug ?fs1 l)))" using Node.prems(3) by simp
        from Node.IH(1)[OF sh1 rr srt1 lo1 hi1] consider
          (found) c' where "insert_descend cmp k la s = Some (c', None)" "c' \<in> set (inorder l)"
            "\<not> cmp (?K c') k" "\<not> cmp k (?K c')"
        | (leaf) c' w cc sib fs' where "insert_descend cmp k la s = Some (c', Some w)"
            "plug ?fs1 l = plug (Fr w c' cc sib # fs') Leaf"
            "\<forall>x \<in> set (pre (Fr w c' cc sib # fs')). cmp (?K x) k"
            "\<forall>y \<in> set (post (Fr w c' cc sib # fs')). cmp k (?K y)"
          by blast
        then show ?thesis
        proof cases
          case found
          have "c' \<in> set (inorder (tree.Node l a c r))" using found(2) by simp
          then show ?thesis using found(1,3,4) e cur by metis
        next
          case leaf
          have "plug fs (tree.Node l a c r) = plug (Fr w c' cc sib # fs') Leaf"
            using leaf(2) pl by (simp only:)
          then show ?thesis using leaf(1,3,4) e cur by metis
        qed
      qed
    qed
  qed
qed

lemma key_at_cong: "map_option val (h' x) = map_option val (h x) \<Longrightarrow> key_at h' x = key_at h x"
  by (cases "h x"; cases "h' x"; simp add: key_at_def)

lemma pair_at_cong: "map_option val (h' x) = map_option val (h x) \<Longrightarrow> pair_at h' x = pair_at h x"
  by (cases "h x"; cases "h' x"; simp add: pair_at_def)

lemma shape_msize [simp]: "shape (s\<lparr>msize := m\<rparr>) t = shape s t"
  by (simp add: shape_def)

lemma rootp_None [simp]: "(rootp t = None) = (t = Leaf)" "(None = rootp t) = (t = Leaf)"
  by (cases t; auto)+

lemma insert_tail:
  fixes s :: "('k, 'v) map_state"
  assumes sh: "shape s1 (plug fs (Node Leaf a RED Leaf))"
    and rb: "rbt (plug fs Leaf)"
  shows "\<exists>s' T'. insert_fix a s1 = Some s' \<and> shape s' T' \<and> rbt T'
      \<and> inorder T' = pre fs @ a # post fs \<and> same_payload s1 s'"
proof -
  have "invc_ctx fs" "invh_ctx fs 0" "rcol fs BLACK = BLACK"
    using rb by (simp_all add: rbt_def invc_plug invh_plug col_plug)
  from insert_fix_correct[OF sh _ _ _ _ _ _ _ this(1) _ this(3)] this(2)
  show ?thesis by (auto simp add: inorder_plug)
qed

lemma insert_node_cases:
  fixes s :: "('k, 'v) map_state"
  assumes inv: "map_inv cmp s T" and tr: "transp cmp" and kv: "fst v = key"
  shows "(\<exists>c. insert_node cmp key v s = Some ((c, False), s) \<and> c \<in> set (inorder T)
            \<and> \<not> cmp (key_at (mem s) c) key \<and> \<not> cmp key (key_at (mem s) c))
       \<or> (\<exists>s' T' xs ys. insert_node cmp key v s = Some ((brk s, True), s') \<and> map_inv cmp s' T'
            \<and> inorder T = xs @ ys \<and> inorder T' = xs @ brk s # ys
            \<and> (\<forall>x \<in> set xs. cmp (key_at (mem s) x) key) \<and> (\<forall>y \<in> set ys. cmp key (key_at (mem s) y))
            \<and> ins_frame s s' v)"
proof -
  let ?K = "key_at (mem s)" let ?a = "brk s"
  from inv have sh: "shape s T" and rb: "rbt T" and srt: "sorted_wrt cmp (map ?K (inorder T))"
    and sz: "msize s = length (inorder T)" by (auto simp: map_inv_def)
  have rt: "root s = rootp T" using sh by (rule shape_rootp)
  have fin: "\<exists>s' T'. (insert_fix ?a (s1\<lparr>msize := msize s1 + 1\<rparr>) = Some s' \<and> map_inv cmp s' T'
      \<and> inorder T' = pre fs @ ?a # post fs \<and> ins_frame s s' v)"
    if s1: "shape s1 (plug fs (Node Leaf ?a RED Leaf))" and T: "T = plug fs Leaf"
      and fr: "head s1 = head s" "tail s1 = tail s" "msize s1 = msize s" "brk s1 = Suc (brk s)"
        "map_option val (mem s1 ?a) = Some (Some v)"
        "\<forall>b. b \<noteq> ?a \<longrightarrow> map_option val (mem s1 b) = map_option val (mem s b)"
      and lo: "\<forall>x \<in> set (pre fs). cmp (?K x) key" and hi: "\<forall>y \<in> set (post fs). cmp key (?K y)"
    for s1 fs
  proof -
    let ?s2 = "s1\<lparr>msize := msize s1 + 1\<rparr>"
    have sh2: "shape ?s2 (plug fs (Node Leaf ?a RED Leaf))" using s1 by simp
    from insert_tail[OF sh2] rb T obtain s' T' where r: "insert_fix ?a ?s2 = Some s'" "shape s' T'" "rbt T'"
      "inorder T' = pre fs @ ?a # post fs" "same_payload ?s2 s'" by blast
    have vals: "map_option val (mem s' b) = map_option val (mem s1 b)" for b
      using r(5) by (simp add: same_payload_def)
    have io: "inorder T = pre fs @ post fs" using T by (simp add: inorder_plug)
    have anin: "?a \<notin> set (inorder T)" using shape_alloc[OF sh, of ?a] shape_fresh[OF sh] by auto
    have K': "key_at (mem s') b = ?K b" if "b \<noteq> ?a" for b
      using that fr(6) vals[of b] by (intro key_at_cong) simp
    have Ka: "key_at (mem s') ?a = key"
      using fr(5) vals[of ?a] kv by (cases "mem s' ?a") (auto simp: key_at_def)
    have meq: "map (key_at (mem s')) (pre fs) = map ?K (pre fs)" "map (key_at (mem s')) (post fs) = map ?K (post fs)"
      using anin io K' by (auto intro!: map_cong) metis+
    have "sorted_wrt cmp (map (key_at (mem s')) (inorder T'))"
      using srt lo hi by (simp add: r(4) io Ka sorted_wrt_append meq)
    moreover have "msize s' = length (inorder T')" using r(5) fr(3) sz io by (simp add: same_payload_def r(4))
    moreover have "ins_frame s s' v" using r(5) fr vals by (simp add: same_payload_def ins_frame_def)
    ultimately show ?thesis using r by (auto simp: map_inv_def)
  qed
  show ?thesis
  proof (cases T)
    case Leaf
    then have r0: "root s = None" using rt by simp
    have sh0: "shape s (plug [] Leaf)" using sh Leaf by simp
    from insert_leaf_shape[OF sh0, of v] obtain s1 where s1:
      "new_node v (Some (head s)) (Some (tail s)) None None None LEFT s = Some (?a, s1)"
      "shape (s1\<lparr>root := Some ?a\<rparr>) (plug [] (Node Leaf ?a RED Leaf))"
      "head s1 = head s" "tail s1 = tail s" "msize s1 = msize s" "brk s1 = Suc (brk s)"
      "map_option val (mem s1 ?a) = Some (Some v)"
      "\<forall>b. b \<noteq> ?a \<longrightarrow> map_option val (mem s1 b) = map_option val (mem s b)"
      by auto
    from fin[of "s1\<lparr>root := Some ?a\<rparr>" "[]"] s1 Leaf
    obtain s' T' where r: "insert_fix ?a (s1\<lparr>root := Some ?a, msize := msize s1 + 1\<rparr>) = Some s'"
      "map_inv cmp s' T'" "inorder T' = [?a]" "ins_frame s s' v" by auto
    have "insert_node cmp key v s = Some ((?a, True), s')"
      using r0 s1(1) r(1) by (simp add: insert_node_def)
    then show ?thesis using r Leaf by auto
  next
    case (Node l a c r)
    then have r0: "root s = Some a" using rt by simp
    have sh0: "shape s (plug [] T)" using sh by simp
    have srt0: "sorted_wrt cmp (map ?K (inorder (plug [] T)))" using srt by simp
    from insert_descend_correct[OF sh0 _ srt0 tr, of a key] Node
    consider (found) c' where "insert_descend cmp key a s = Some (c', None)" "c' \<in> set (inorder T)"
        "\<not> cmp (?K c') key" "\<not> cmp key (?K c')"
      | (leaf) c' w cc sib fs' where "insert_descend cmp key a s = Some (c', Some w)"
        "T = plug (Fr w c' cc sib # fs') Leaf"
        "\<forall>x \<in> set (pre (Fr w c' cc sib # fs')). cmp (?K x) key"
        "\<forall>y \<in> set (post (Fr w c' cc sib # fs')). cmp key (?K y)"
      by auto
    then show ?thesis
    proof cases
      case found
      have "insert_node cmp key v s = Some ((c', False), s)"
        using r0 found(1) by (simp add: insert_node_def)
      then show ?thesis using found by blast
    next
      case leaf
      let ?fs = "Fr w c' cc sib # fs'"
      have shl: "shape s (plug ?fs Leaf)" using sh leaf(2) by simp
      have zs: "head s # inorder T @ [tail s] = (head s # pre ?fs) @ (post ?fs @ [tail s])"
        unfolding leaf(2) by (simp add: inorder_plug)
      have succ: "successively (link (mem s)) ((head s # pre ?fs) @ (post ?fs @ [tail s]))"
        using sh unfolding zs[symmetric] by (simp add: shape_def)
      have lk: "link (mem s) (last (head s # pre ?fs)) (hd (post ?fs @ [tail s]))"
        by (rule succ_link_adjacent[OF succ]) simp_all
      from shape_focus[of s fs' w Leaf c' cc sib] shl obtain cn where cn: "mem s c' = Some cn" by auto
      have ptrs: "(if w then Some c' else prev cn) = Some (last (head s # pre ?fs))"
        "(if w then next cn else Some c') = Some (hd (post ?fs @ [tail s]))"
        using lk cn by (cases w; auto simp: link_def split: option.splits)+
      from insert_leaf_shape[OF shl, of v] obtain s1 where s1:
        "new_node v (Some (last (head s # pre ?fs))) (Some (hd (post ?fs @ [tail s]))) (Some c') None None w s = Some (?a, s1)"
        "shape (s1\<lparr>root := rootp (plug ?fs (Node Leaf ?a RED Leaf))\<rparr>) (plug ?fs (Node Leaf ?a RED Leaf))"
        "root s1 = rootp (plug ?fs (Node Leaf ?a RED Leaf))"
        "head s1 = head s" "tail s1 = tail s" "msize s1 = msize s" "brk s1 = Suc (brk s)"
        "map_option val (mem s1 ?a) = Some (Some v)"
        "\<forall>b. b \<noteq> ?a \<longrightarrow> map_option val (mem s1 b) = map_option val (mem s b)"
        by auto
      have "s1\<lparr>root := rootp (plug ?fs (Node Leaf ?a RED Leaf))\<rparr> = s1" using s1(3) by simp
      then have sh1: "shape s1 (plug ?fs (Node Leaf ?a RED Leaf))" using s1(2) by simp
      from fin[OF sh1 leaf(2) s1(4-9) leaf(3,4)]
      obtain s' T' where r: "insert_fix ?a (s1\<lparr>msize := msize s1 + 1\<rparr>) = Some s'"
        "map_inv cmp s' T'" "inorder T' = pre ?fs @ ?a # post ?fs" "ins_frame s s' v" by auto
      have "insert_node cmp key v s = Some ((?a, True), s')"
        using r0 leaf(1) cn s1(1) r(1) ptrs by (simp add: insert_node_def)
      moreover have "inorder T = pre ?fs @ post ?fs" unfolding leaf(2) by (simp add: inorder_plug)
      ultimately show ?thesis using r leaf(3,4) by blast
    qed
  qed
qed

lemma find_loop_correct:
  fixes h :: "('k, 'v, 'z) heap_scheme"
  assumes "tr (mem h) f w t" "sorted_wrt cmp (map (key_at (mem h)) (inorder t))" "transp cmp"
  shows "(\<exists>c \<in> set (inorder t). find_loop cmp k (rootp t) h = Some (Some c) \<and> equiv_key cmp k (key_at (mem h) c))
       \<or> (find_loop cmp k (rootp t) h = Some None \<and> (\<forall>x \<in> set (inorder t). \<not> equiv_key cmp k (key_at (mem h) x)))"
  using assms(1,2)
proof (induction t arbitrary: f w)
  case Leaf
  show ?case by (subst find_loop.simps) simp
next
  case (Node l a c r)
  let ?K = "key_at (mem h)"
  from Node.prems(1) obtain n where n: "mem h a = Some n" "child n LEFT = rootp l" "child n RIGHT = rootp r"
    "val n \<noteq> None" "tr (mem h) (Some a) LEFT l" "tr (mem h) (Some a) RIGHT r"
    by (auto split: option.splits)
  then obtain kv where kv: "val n = Some kv" by auto
  have ka: "?K a = fst kv" using n(1) kv by (simp add: key_at_def)
  have sl: "sorted_wrt cmp (map ?K (inorder l))" and sr: "sorted_wrt cmp (map ?K (inorder r))"
    and la: "\<forall>x \<in> set (inorder l). cmp (?K x) (?K a)" and ar: "\<forall>y \<in> set (inorder r). cmp (?K a) (?K y)"
    using Node.prems(2) by (auto simp: sorted_wrt_append)
  have unf: "find_loop cmp k (Some a) h =
      (if cmp k (fst kv) then find_loop cmp k (rootp l) h
       else if cmp (fst kv) k then find_loop cmp k (rootp r) h else Some (Some a))"
    by (subst find_loop.simps) (simp add: n kv)
  consider (lt) "cmp k (?K a)" | (gt) "\<not> cmp k (?K a)" "cmp (?K a) k" | (eq) "\<not> cmp k (?K a)" "\<not> cmp (?K a) k"
    by blast
  then show ?case
  proof cases
    case lt
    have u: "find_loop cmp k (rootp (Node l a c r)) h = find_loop cmp k (rootp l) h"
      using unf lt ka by simp
    have "\<forall>y \<in> set (inorder r). cmp k (?K y)"
      using ar lt assms(3) by (meson transpD)
    then have ex: "\<forall>y \<in> set (a # inorder r). \<not> equiv_key cmp k (?K y)"
      using lt by (auto simp: equiv_key_def)
    from Node.IH(1)[OF n(5) sl] show ?thesis unfolding u using ex by auto
  next
    case gt
    have u: "find_loop cmp k (rootp (Node l a c r)) h = find_loop cmp k (rootp r) h"
      using unf gt ka by simp
    have "\<forall>y \<in> set (inorder l). cmp (?K y) k"
      using la gt assms(3) by (meson transpD)
    then have ex: "\<forall>y \<in> set (a # inorder l). \<not> equiv_key cmp k (?K y)"
      using gt by (auto simp: equiv_key_def)
    from Node.IH(2)[OF n(6) sr] show ?thesis unfolding u using ex by auto
  next
    case eq
    have "find_loop cmp k (rootp (Node l a c r)) h = Some (Some a)" using unf eq ka by simp
    then show ?thesis using eq by (auto simp: equiv_key_def)
  qed
qed

lemma shape_tail_notin: "shape s t \<Longrightarrow> tail s \<notin> set (inorder t) \<and> head s \<notin> set (inorder t)"
  by (auto simp: shape_def)

lemma shape_val:
  assumes "shape s t" "c \<in> set (inorder t)"
  shows "\<exists>n kv. mem s c = Some n \<and> val n = Some kv"
proof -
  have "tr h f w t \<Longrightarrow> c \<in> set (inorder t) \<Longrightarrow> \<exists>n kv. h c = Some n \<and> val n = Some kv" for h :: "addr \<rightharpoonup> ('a, 'b) rbt_node" and f w
    by (induction t arbitrary: f w) (auto split: option.splits)
  then show ?thesis using assms by (auto simp: shape_def)
qed

lemma find_node_correct:
  fixes s :: "('k, 'v) map_state"
  assumes "map_inv cmp s T" "transp cmp"
  shows "(\<exists>c \<in> set (inorder T). find_node cmp k s = Some c \<and> equiv_key cmp k (key_at (mem s) c))
       \<or> (find_node cmp k s = Some (tail s) \<and> (\<forall>x \<in> set (inorder T). \<not> equiv_key cmp k (key_at (mem s) x)))"
proof -
  from assms(1) have sh: "shape s T" and srt: "sorted_wrt cmp (map (key_at (mem s)) (inorder T))"
    by (auto simp: map_inv_def)
  have t: "tr (mem s) None LEFT T" and r: "root s = rootp T" using sh by (auto simp: shape_def)
  from find_loop_correct[OF t srt assms(2), of k] show ?thesis
    by (auto simp: find_node_def r)
qed

lemma map_at_correct:
  fixes s :: "('k, 'v) map_state"
  assumes "map_inv cmp s T" "transp cmp"
  shows "(\<exists>c \<in> set (inorder T). map_at cmp this k s = Some (Inr c) \<and> equiv_key cmp k (key_at (mem s) c))
       \<or> (map_at cmp this k s = Some (Inl index_out_of_bound) \<and> (\<forall>x \<in> set (inorder T). \<not> equiv_key cmp k (key_at (mem s) x)))"
proof -
  from assms(1) have sh: "shape s T" by (auto simp: map_inv_def)
  from find_node_correct[OF assms, of k] show ?thesis
  proof
    assume "\<exists>c \<in> set (inorder T). find_node cmp k s = Some c \<and> equiv_key cmp k (key_at (mem s) c)"
    then obtain c where c: "c \<in> set (inorder T)" "find_node cmp k s = Some c" "equiv_key cmp k (key_at (mem s) c)"
      by blast
    from shape_val[OF sh c(1)] obtain n kv where n: "mem s c = Some n" "val n = Some kv" by blast
    have ct: "c \<noteq> tail s" using shape_tail_notin[OF sh] c(1) by auto
    have "map_at cmp this k s = Some (Inr c)"
      using c(2) n ct by (simp add: map_at_def map_find_def map_end_def it_arrow_def rd_def)
    then show ?thesis using c by blast
  next
    assume a: "find_node cmp k s = Some (tail s) \<and> (\<forall>x \<in> set (inorder T). \<not> equiv_key cmp k (key_at (mem s) x))"
    then have "map_at cmp this k s = Some (Inl index_out_of_bound)"
      by (simp add: map_at_def map_find_def map_end_def)
    then show ?thesis using a by blast
  qed
qed



lemma compare_ok_less: "compare_ok ((<) :: int \<Rightarrow> int \<Rightarrow> bool)"
  by (auto simp: compare_ok_def equiv_key_def)

lemma map_inv_state0: "map_inv (<) state0 Leaf"
  by (auto simp: map_inv_def shape_def state0_def rbt_def link_def junk_def)

lemma map_inv_state1: "map_inv (<) state1 (Node Leaf 2 BLACK Leaf)"
  by (auto simp: map_inv_def shape_def state1_def rbt_def link_def junk_def)

lemma insert_state0:
  "map_insert (<) 100 (1, 10) state0 = Some ((\<lparr>it_map = Some 100, node = Some 2\<rparr>, True), state1)"
  apply (simp add: map_insert_def insert_value_def insert_node_def state0_def new_node_def update_nearby_def
      upd_def rd_def junk_def)
  apply (subst insert_fix.simps)
  apply (simp add: upd_def state1_def junk_def)
  done

lemma equiv_unique:
  assumes "map_inv cmp s T" "compare_ok cmp" "x \<in> set (inorder T)" "c \<in> set (inorder T)"
    "equiv_key cmp k (key_at (mem s) x)" "equiv_key cmp k (key_at (mem s) c)"
  shows "c = x"
proof (rule ccontr)
  assume ne: "c \<noteq> x"
  let ?K = "key_at (mem s)"
  have srt: "sorted_wrt cmp (map ?K (inorder T))" using assms(1) by (simp add: map_inv_def)
  have "equiv_key cmp (?K x) k" using assms(5) by (auto simp: equiv_key_def)
  then have e: "equiv_key cmp (?K x) (?K c)" using assms(2,6) unfolding compare_ok_def by blast
  obtain i j where ij: "i < length (inorder T)" "j < length (inorder T)" "inorder T ! i = x" "inorder T ! j = c"
    using assms(3,4) by (metis in_set_conv_nth)
  have "i \<noteq> j" using ij ne by auto
  then consider "i < j" | "j < i" by linarith
  then have "cmp (?K x) (?K c) \<or> cmp (?K c) (?K x)"
  proof cases
    case 1
    then show ?thesis using sorted_wrt_nth_less[OF srt, of i j] ij by simp
  next
    case 2
    then show ?thesis using sorted_wrt_nth_less[OF srt, of j i] ij by simp
  qed
  then show False using e by (auto simp: equiv_key_def)
qed

section \<open>Inserting a key that is present\<close>

text \<open>C3: when the map holds an entry \<open>x\<close> whose key is equivalent to the key of \<open>v\<close> (neither
  is less than the other), \<^verbatim>\<open>insert(v)\<close> returns the iterator at \<open>x\<close> with the flag
  \<^verbatim>\<open>false\<close>, and the state it leaves is the state it started from: the memory with every
  node, link and stored pair, the root and the size.\<close>

theorem insert_present:
  fixes s :: "('k, 'v) map_state"
  assumes "map_inv cmp s T" and "compare_ok cmp"
    and "x \<in> set (inorder T)" and "equiv_key cmp (fst v) (key_at (mem s) x)"
  shows "map_insert cmp this v s = Some ((\<lparr>it_map = Some this, node = Some x\<rparr>, False), s)"
proof -
  have tr: "transp cmp" using assms(2) by (simp add: compare_ok_def)
  from insert_node_cases[OF assms(1) tr refl, of v]
  show ?thesis
  proof (elim disjE exE conjE)
    fix c assume c: "insert_node cmp (fst v) v s = Some ((c, False), s)" "c \<in> set (inorder T)"
      "\<not> cmp (key_at (mem s) c) (fst v)" "\<not> cmp (fst v) (key_at (mem s) c)"
    have "c = x" using equiv_unique[OF assms(1,2,3) c(2) assms(4)] c(3,4) by (simp add: equiv_key_def)
    then show ?thesis using c(1) by (simp add: map_insert_def insert_value_def)
  next
    fix s' T' xs ys
    assume "inorder T = xs @ ys" "\<forall>x\<in>set xs. cmp (key_at (mem s) x) (fst v)"
      "\<forall>y\<in>set ys. cmp (fst v) (key_at (mem s) y)"
    then have False using assms(3,4) by (auto simp: equiv_key_def)
    then show ?thesis ..
  qed
qed

theorem insert_present_witness:
  "map_inv (<) state1 (Node Leaf 2 BLACK Leaf) \<and> compare_ok ((<) :: int \<Rightarrow> int \<Rightarrow> bool)
   \<and> 2 \<in> set (inorder (Node Leaf 2 BLACK Leaf)) \<and> equiv_key (<) (fst (1 :: int, 77 :: int)) (key_at (mem state1) 2)
   \<and> map_insert (<) 100 (1, 77) state1 = Some ((\<lparr>it_map = Some 100, node = Some 2\<rparr>, False), state1)"
proof -
  have k: "equiv_key (<) (fst (1 :: int, 77 :: int)) (key_at (mem state1) 2)"
    by (simp add: equiv_key_def key_at_def state1_def)
  have m: "2 \<in> set (inorder (Node Leaf 2 BLACK Leaf))" by simp
  show ?thesis
    using insert_present [OF map_inv_state1 compare_ok_less m k, of 100] map_inv_state1 compare_ok_less k
    by simp
qed

section \<open>Checked lookup\<close>

text \<open>C6, as the code has it: \<^verbatim>\<open>at(key)\<close> returns the node of an entry whose key is
  equivalent to \<open>key\<close> when there is one, and throws \<^verbatim>\<open>index_out_of_bound\<close> when there is
  none; it reads the map only. The \<^verbatim>\<open>const\<close> overload of \<^verbatim>\<open>operator[]\<close> is \<^verbatim>\<open>at\<close> and
  throws the same exception; \<^verbatim>\<open>erase\<close> and the iterator operators never throw it.\<close>

theorem at_correct:
  fixes s :: "('k, 'v) map_state"
  assumes "map_inv cmp s T" and "transp cmp"
  shows "((\<exists>x \<in> set (inorder T). equiv_key cmp key (key_at (mem s) x)) \<longrightarrow>
            (\<exists>c \<in> set (inorder T). map_at cmp this key s = Some (Inr c) \<and> equiv_key cmp key (key_at (mem s) c)))
       \<and> ((\<forall>x \<in> set (inorder T). \<not> equiv_key cmp key (key_at (mem s) x)) \<longrightarrow>
            map_at cmp this key s = Some (Inl index_out_of_bound))
       \<and> map_subscript_const cmp this key s = map_at cmp this key s
       \<and> map_erase this pos s \<noteq> Some (Inl index_out_of_bound)
       \<and> it_incr it s \<noteq> Some (Inl index_out_of_bound)
       \<and> it_decr it s \<noteq> Some (Inl index_out_of_bound)
       \<and> it_arrow it s \<noteq> Some (Inl index_out_of_bound)"
proof -
  have 1: "map_erase this pos s \<noteq> Some (Inl index_out_of_bound)"
    by (auto simp: map_erase_def split: option.splits bind_splits)
  have 2: "it_incr it s \<noteq> Some (Inl index_out_of_bound)"
    by (auto simp: it_incr_def split: option.splits bind_splits)
  have 3: "it_decr it s \<noteq> Some (Inl index_out_of_bound)"
    by (auto simp: it_decr_def split: option.splits bind_splits if_splits)
  have 4: "it_arrow it s \<noteq> Some (Inl index_out_of_bound)"
    by (auto simp: it_arrow_def split: option.splits bind_splits)
  from map_at_correct[OF assms, of this key] 1 2 3 4 show ?thesis
    by (auto simp: map_subscript_const_def)
qed

theorem at_correct_witness:
  "map_inv (<) state1 (Node Leaf 2 BLACK Leaf) \<and> transp ((<) :: int \<Rightarrow> int \<Rightarrow> bool)
   \<and> map_at (<) 100 1 state1 = Some (Inr 2) \<and> pair_at (mem state1) 2 = (1, 10)
   \<and> map_at (<) 100 5 state1 = Some (Inl index_out_of_bound)"
proof -
  have t: "transp ((<) :: int \<Rightarrow> int \<Rightarrow> bool)" by simp
  have k: "key_at (mem state1) 2 = 1" "pair_at (mem state1) 2 = (1, 10)"
    by (simp_all add: key_at_def pair_at_def state1_def)
  show ?thesis
    using at_correct [OF map_inv_state1 t, of 1 100] at_correct [OF map_inv_state1 t, of 5 100]
      map_inv_state1 t k
    by (simp add: equiv_key_def)
qed

text \<open>C6 as stated fails in its last part: on the empty map, \<^verbatim>\<open>operator[]\<close> of a
  \<^verbatim>\<open>const\<close> map throws \<^verbatim>\<open>index_out_of_bound\<close>, so \<^verbatim>\<open>at\<close> is not the only operation
  that raises it.\<close>

theorem subscript_const_counterexample:
  "map_subscript_const (<) 100 7 state0 = Some (Inl index_out_of_bound)"
  by (simp add: map_subscript_const_def map_at_def map_find_def find_node_def find_loop.simps
      map_end_def state0_def)

section \<open>Unchecked lookup\<close>

text \<open>C7, for the overload of \<^verbatim>\<open>operator[]\<close> on a map that is not \<^verbatim>\<open>const\<close>: it always
  returns a node. When an entry with an equivalent key exists, the node is such an entry and
  the state is unchanged; otherwise the node is new, it holds the key with the default
  value, the size has grown by one, the entries are the old ones and the new one, and the
  old entries keep their pairs.\<close>

theorem subscript_total:
  fixes s :: "('k, 'v) map_state"
  assumes "map_inv cmp s T" and "transp cmp"
  shows "\<exists>n s'. map_subscript cmp dflt key s = Some (n, s') \<and>
     (if \<exists>x \<in> set (inorder T). equiv_key cmp key (key_at (mem s) x)
      then s' = s \<and> n \<in> set (inorder T) \<and> equiv_key cmp key (key_at (mem s) n)
      else msize s' = msize s + 1 \<and> pair_at (mem s') n = (key, dflt) \<and> n \<notin> set (inorder T)
         \<and> (\<exists>T'. map_inv cmp s' T' \<and> set (inorder T') = insert n (set (inorder T)))
         \<and> (\<forall>b \<in> set (inorder T). pair_at (mem s') b = pair_at (mem s) b))"
proof -
  let ?K = "key_at (mem s)"
  have sh: "shape s T" using assms(1) by (simp add: map_inv_def)
  have "fst (key, dflt) = key" by simp
  from insert_node_cases[OF assms this]
  show ?thesis
  proof (elim disjE exE conjE)
    fix c assume c: "insert_node cmp key (key, dflt) s = Some ((c, False), s)" "c \<in> set (inorder T)"
      "\<not> cmp (?K c) key" "\<not> cmp key (?K c)"
    from shape_val[OF sh c(2)] obtain n kv where n: "mem s c = Some n" "val n = Some kv" by blast
    have "map_subscript cmp dflt key s = Some (c, s)"
      using c(1) n by (simp add: map_subscript_def insert_key_def)
    then show ?thesis using c by (auto simp: equiv_key_def)
  next
    fix s' T' xs ys
    assume a: "insert_node cmp key (key, dflt) s = Some ((brk s, True), s')" "map_inv cmp s' T'"
      "inorder T = xs @ ys" "inorder T' = xs @ brk s # ys"
      "\<forall>x\<in>set xs. cmp (?K x) key" "\<forall>y\<in>set ys. cmp key (?K y)" "ins_frame s s' (key, dflt)"
    have ne: "\<not> (\<exists>x \<in> set (inorder T). equiv_key cmp key (?K x))"
      using a(3,5,6) by (auto simp: equiv_key_def)
    from a(7) obtain n where n: "mem s' (brk s) = Some n" "val n = Some (key, dflt)"
      by (auto simp: ins_frame_def)
    have ms: "map_subscript cmp dflt key s = Some (brk s, s')"
      using a(1) n by (simp add: map_subscript_def insert_key_def)
    have fresh: "brk s \<notin> set (inorder T)" using shape_alloc[OF sh, of "brk s"] shape_fresh[OF sh] by auto
    have pa: "\<forall>b \<in> set (inorder T). pair_at (mem s') b = pair_at (mem s) b"
    proof
      fix b assume b: "b \<in> set (inorder T)"
      then have "b \<noteq> brk s" using fresh by auto
      then have "map_option val (mem s' b) = map_option val (mem s b)" using a(7) by (simp add: ins_frame_def)
      then show "pair_at (mem s') b = pair_at (mem s) b" by (rule pair_at_cong)
    qed
    have "set (inorder T') = insert (brk s) (set (inorder T))" using a(3,4) by auto
    then show ?thesis using ms ne a(2,7) n fresh pa
      by (auto simp: ins_frame_def pair_at_def)
  qed
qed

theorem subscript_total_witness:
  "map_inv (<) state1 (Node Leaf 2 BLACK Leaf) \<and> transp ((<) :: int \<Rightarrow> int \<Rightarrow> bool)
   \<and> map_subscript (<) 0 1 state1 = Some (2, state1)
   \<and> (\<exists>n s'. map_subscript (<) 0 5 state1 = Some (n, s') \<and> msize s' = 2 \<and> pair_at (mem s') n = (5, 0))"
proof -
  have t: "transp ((<) :: int \<Rightarrow> int \<Rightarrow> bool)" by simp
  have k: "key_at (mem state1) 2 = 1" "msize state1 = 1"
    by (simp_all add: key_at_def state1_def)
  show ?thesis
    using subscript_total [OF map_inv_state1 t, of 0 1] subscript_total [OF map_inv_state1 t, of 0 5]
      map_inv_state1 t k
    by (auto simp: equiv_key_def)
qed

text \<open>C7 as stated fails for a \<^verbatim>\<open>const\<close> map: on the map that holds the key 1 only,
  \<^verbatim>\<open>operator[]\<close> with the key 5 throws \<^verbatim>\<open>index_out_of_bound\<close> and inserts nothing.\<close>

theorem subscript_on_const_counterexample:
  "map_subscript_const (<) 100 5 state1 = Some (Inl index_out_of_bound)"
  by (simp add: map_subscript_const_def map_at_def map_find_def find_node_def find_loop.simps
      map_end_def state1_def)

section \<open>Iterators at the bounds\<close>




section \<open>Assignment to itself\<close>

text \<open>C10: \<^verbatim>\<open>m = m\<close> returns at once; the whole memory, and with it the size, the
  sequence of pairs and every stored value of the map, is as before.\<close>

theorem map_assign_self:
  "map_assign this this w = Some w"
  by (simp add: map_assign_def)

end
